theory Spec2Isabelle
  imports Main
begin

section \<open>The JavaScript Date object\<close>

text \<open>
  \<^verbatim>\<open>processRecurringCampaigns\<close> in \<^verbatim>\<open>MailchimpService.js\<close> computes the next
  fire time of a recurring campaign with the methods of the built-in \<^verbatim>\<open>Date\<close>
  object.  Their meaning is fixed by ECMA-262 (section "Date Objects"); the
  definitions of this section follow its abstract operations one by one and keep
  their names.  A time value is a number of milliseconds since 1970-01-01T00:00Z.
  The host time zone is taken to be UTC without daylight saving, so that
  \<^verbatim>\<open>LocalTime(t) = t\<close> and \<^verbatim>\<open>UTC(t) = t\<close>.
\<close>

definition msPerDay :: int where
  "msPerDay = 86400000"

definition msPerHour :: int where
  "msPerHour = 3600000"

definition msPerMinute :: int where
  "msPerMinute = 60000"

definition msPerSecond :: int where
  "msPerSecond = 1000"

definition Day :: "int \<Rightarrow> int" where
  "Day t = t div msPerDay"

definition TimeWithinDay :: "int \<Rightarrow> int" where
  "TimeWithinDay t = t mod msPerDay"

definition DaysInYear :: "int \<Rightarrow> int" where
  "DaysInYear y =
     (if y mod 4 \<noteq> 0 then 365
      else if y mod 100 \<noteq> 0 then 366
      else if y mod 400 \<noteq> 0 then 365
      else 366)"

definition DayFromYear :: "int \<Rightarrow> int" where
  "DayFromYear y =
     365 * (y - 1970) + (y - 1969) div 4 - (y - 1901) div 100 + (y - 1601) div 400"

definition TimeFromYear :: "int \<Rightarrow> int" where
  "TimeFromYear y = msPerDay * DayFromYear y"

text \<open>
  ECMA-262 specifies \<^verbatim>\<open>YearFromTime(t)\<close> as the largest integer \<open>y\<close> with
  \<^verbatim>\<open>TimeFromYear(y) \<le> t\<close>.  The executable form below starts from the estimate
  given by the mean length of a Gregorian year (146097 days in 400 years), which is
  off by at most one, and corrects it; \<open>YearFromTime_largest\<close> below shows that it
  is the year of the standard.
\<close>

definition YearFromDay :: "int \<Rightarrow> int" where
  "YearFromDay n =
     (let y0 = 1970 + (400 * n) div 146097
      in if DayFromYear (y0 + 1) \<le> n then y0 + 1
         else if DayFromYear y0 \<le> n then y0
         else y0 - 1)"

definition YearFromTime :: "int \<Rightarrow> int" where
  "YearFromTime t = YearFromDay (Day t)"

definition DayWithinYear :: "int \<Rightarrow> int" where
  "DayWithinYear t = Day t - DayFromYear (YearFromTime t)"

text \<open>
  The first day (counted from 0 within the year) of month \<open>m\<close> (0 = January); \<open>l\<close> is 1
  in a leap year and 0 otherwise.  These are the bounds of the table by which the
  standard defines \<^verbatim>\<open>MonthFromTime\<close> and \<^verbatim>\<open>DateFromTime\<close>; index 12 is the length
  of the year.
\<close>

definition monthStart :: "int \<Rightarrow> int \<Rightarrow> int" where
  "monthStart l m =
     (if m \<le> 0 then 0
      else if m = 1 then 31
      else if m = 2 then 59 + l
      else if m = 3 then 90 + l
      else if m = 4 then 120 + l
      else if m = 5 then 151 + l
      else if m = 6 then 181 + l
      else if m = 7 then 212 + l
      else if m = 8 then 243 + l
      else if m = 9 then 273 + l
      else if m = 10 then 304 + l
      else if m = 11 then 334 + l
      else 365 + l)"

definition leapDays :: "int \<Rightarrow> int" where
  "leapDays y = (if DaysInYear y = 366 then 1 else 0)"

definition InLeapYear :: "int \<Rightarrow> int" where
  "InLeapYear t = leapDays (YearFromTime t)"

definition monthOfDay :: "int \<Rightarrow> int \<Rightarrow> int" where
  "monthOfDay l d =
     (if d < 31 then 0
      else if d < 59 + l then 1
      else if d < 90 + l then 2
      else if d < 120 + l then 3
      else if d < 151 + l then 4
      else if d < 181 + l then 5
      else if d < 212 + l then 6
      else if d < 243 + l then 7
      else if d < 273 + l then 8
      else if d < 304 + l then 9
      else if d < 334 + l then 10
      else 11)"

definition MonthFromTime :: "int \<Rightarrow> int" where
  "MonthFromTime t = monthOfDay (InLeapYear t) (DayWithinYear t)"

definition DateFromTime :: "int \<Rightarrow> int" where
  "DateFromTime t =
     DayWithinYear t - monthStart (InLeapYear t) (MonthFromTime t) + 1"

definition WeekDay :: "int \<Rightarrow> int" where
  "WeekDay t = (Day t + 4) mod 7"

definition MakeTime :: "int \<Rightarrow> int \<Rightarrow> int \<Rightarrow> int \<Rightarrow> int" where
  "MakeTime hour minute sec ms =
     hour * msPerHour + minute * msPerMinute + sec * msPerSecond + ms"

text \<open>
  \<^verbatim>\<open>MakeDay(year, month, date)\<close>: the standard asks for the day number of the first
  of month \<open>mn\<close> of year \<open>ym\<close> and adds \<open>date - 1\<close>; \<open>MakeDay_first\<close> below shows that
  the day computed here is that one.
\<close>

definition MakeDay :: "int \<Rightarrow> int \<Rightarrow> int \<Rightarrow> int" where
  "MakeDay year month date =
     (let ym = year + month div 12; mn = month mod 12
      in DayFromYear ym + monthStart (leapDays ym) mn + date - 1)"

definition MakeDate :: "int \<Rightarrow> int \<Rightarrow> int" where
  "MakeDate day time = day * msPerDay + time"

subsection \<open>Numbers and Date objects\<close>

text \<open>
  A JavaScript number is an integer or \<^verbatim>\<open>NaN\<close> here (\<open>None\<close>); every number that
  the scheduler handles is an integer far below \<open>2 ^ 53\<close>, so that the arithmetic of
  doubles is exact.  A Date object holds a time value or \<^verbatim>\<open>NaN\<close> ("Invalid Date").
\<close>

type_synonym number = "int option"

datatype jsdate = InvalidDate | TimeValue int

definition num_add :: "number \<Rightarrow> int \<Rightarrow> number" where
  "num_add x k = (case x of None \<Rightarrow> None | Some n \<Rightarrow> Some (n + k))"

definition Math_min :: "number \<Rightarrow> number \<Rightarrow> number" where
  "Math_min x y =
     (case x of None \<Rightarrow> None
      | Some a \<Rightarrow> (case y of None \<Rightarrow> None | Some b \<Rightarrow> Some (min a b)))"

definition TimeClip :: "int \<Rightarrow> jsdate" where
  "TimeClip t = (if \<bar>t\<bar> > 8640000000000000 then InvalidDate else TimeValue t)"

definition getFullYear :: "jsdate \<Rightarrow> number" where
  "getFullYear d = (case d of InvalidDate \<Rightarrow> None | TimeValue t \<Rightarrow> Some (YearFromTime t))"

definition getMonth :: "jsdate \<Rightarrow> number" where
  "getMonth d = (case d of InvalidDate \<Rightarrow> None | TimeValue t \<Rightarrow> Some (MonthFromTime t))"

definition getDate :: "jsdate \<Rightarrow> number" where
  "getDate d = (case d of InvalidDate \<Rightarrow> None | TimeValue t \<Rightarrow> Some (DateFromTime t))"

definition getDay :: "jsdate \<Rightarrow> number" where
  "getDay d = (case d of InvalidDate \<Rightarrow> None | TimeValue t \<Rightarrow> Some (WeekDay t))"

definition setDate :: "jsdate \<Rightarrow> number \<Rightarrow> jsdate" where
  "setDate d date =
     (case d of InvalidDate \<Rightarrow> InvalidDate
      | TimeValue t \<Rightarrow>
          (case date of None \<Rightarrow> InvalidDate
           | Some dt \<Rightarrow>
               TimeClip (MakeDate (MakeDay (YearFromTime t) (MonthFromTime t) dt)
                                  (TimeWithinDay t))))"

definition setMonth :: "jsdate \<Rightarrow> number \<Rightarrow> jsdate" where
  "setMonth d month =
     (case d of InvalidDate \<Rightarrow> InvalidDate
      | TimeValue t \<Rightarrow>
          (case month of None \<Rightarrow> InvalidDate
           | Some m \<Rightarrow>
               TimeClip (MakeDate (MakeDay (YearFromTime t) m (DateFromTime t))
                                  (TimeWithinDay t))))"

definition setHours :: "jsdate \<Rightarrow> number \<Rightarrow> number \<Rightarrow> number \<Rightarrow> number \<Rightarrow> jsdate" where
  "setHours d hour minute sec ms =
     (case d of InvalidDate \<Rightarrow> InvalidDate
      | TimeValue t \<Rightarrow>
          (case (hour, minute, sec, ms) of
             (Some h, Some m, Some s, Some milli) \<Rightarrow>
               TimeClip (MakeDate (Day t) (MakeTime h m s milli))
           | _ \<Rightarrow> InvalidDate))"

text \<open>
  \<^verbatim>\<open>new Date(year, month, date)\<close>: a year from 0 to 99 means 1900 + year
  (\<^verbatim>\<open>MakeFullYear\<close>).
\<close>

definition MakeFullYear :: "int \<Rightarrow> int" where
  "MakeFullYear y = (if 0 \<le> y \<and> y \<le> 99 then 1900 + y else y)"

definition new_Date :: "number \<Rightarrow> number \<Rightarrow> number \<Rightarrow> jsdate" where
  "new_Date year month date =
     (case (year, month, date) of
        (Some y, Some m, Some dt) \<Rightarrow>
          TimeClip (MakeDate (MakeDay (MakeFullYear y) m dt) (MakeTime 0 0 0 0))
      | _ \<Rightarrow> InvalidDate)"

subsection \<open>Strings\<close>

text \<open>\<^verbatim>\<open>s.split(':')\<close> for a separator of one character.\<close>

fun split :: "char \<Rightarrow> string \<Rightarrow> string list" where
  "split c [] = [[]]"
| "split c (x # xs) =
     (if x = c then [] # split c xs
      else (case split c xs of [] \<Rightarrow> [[x]] | w # ws \<Rightarrow> (x # w) # ws))"

definition digit :: "char \<Rightarrow> int option" where
  "digit c = map_of (zip ''0123456789'' [0, 1, 2, 3, 4, 5, 6, 7, 8, 9]) c"

fun digits :: "int \<Rightarrow> string \<Rightarrow> number" where
  "digits acc [] = Some acc"
| "digits acc (c # cs) =
     (case digit c of None \<Rightarrow> None | Some v \<Rightarrow> digits (10 * acc + v) cs)"

text \<open>
  \<^verbatim>\<open>Number(s)\<close> on a string of decimal digits; the empty string is 0.  JavaScript
  also reads signs, fractions, exponents, radix prefixes and surrounding white
  space; a time of day in the format \<^verbatim>\<open>HH:MM\<close> of the schema has none of them, and
  on such strings this function yields \<^verbatim>\<open>NaN\<close>.
\<close>

definition Number :: "string \<Rightarrow> number" where
  "Number s = digits 0 s"

text \<open>An element of an array read by destructuring; a missing one is \<^verbatim>\<open>undefined\<close>,
  which \<^verbatim>\<open>setHours\<close> converts to \<^verbatim>\<open>NaN\<close>.\<close>

definition element :: "number list \<Rightarrow> nat \<Rightarrow> number" where
  "element xs i = (if i < length xs then xs ! i else None)"

section \<open>The recurrence rule and the next scheduled date\<close>

text \<open>
  The sub-document \<^verbatim>\<open>recurring\<close> of the schema \<^verbatim>\<open>EmailCampaign\<close>.  A field that is
  \<^verbatim>\<open>undefined\<close> is \<open>None\<close>.  \<^verbatim>\<open>frequency\<close> is a string, so that a value outside the
  enumeration of the schema can be written down.
\<close>

record recurring =
  enabled :: bool
  frequency :: string
  dayOfWeek :: "int option"
  dayOfMonth :: "int option"
  timeOfDay :: "string option"
  lastSent :: "int option"
  nextScheduled :: "int option"

text \<open>
  Lines 812 to 830 of \<^verbatim>\<open>MailchimpService.js\<close>: the \<^verbatim>\<open>switch\<close> on the frequency.
\<close>

definition advance_interval :: "string \<Rightarrow> jsdate \<Rightarrow> jsdate" where
  "advance_interval f nextDate =
     (if f = ''daily'' then setDate nextDate (num_add (getDate nextDate) 1)
      else if f = ''weekly'' then setDate nextDate (num_add (getDate nextDate) 7)
      else if f = ''biweekly'' then setDate nextDate (num_add (getDate nextDate) 14)
      else if f = ''monthly'' then setMonth nextDate (num_add (getMonth nextDate) 1)
      else if f = ''quarterly'' then setMonth nextDate (num_add (getMonth nextDate) 3)
      else setMonth nextDate (num_add (getMonth nextDate) 1))"

text \<open>
  Lines 835 to 837: \<^verbatim>\<open>while (nextDate.getDay() !== dayOfWeek) nextDate.setDate(nextDate.getDate() + 1)\<close>.
  The loop has no bound of its own; a run that never ends is \<open>None\<close>.
\<close>

partial_function (option) seek_weekday :: "int \<Rightarrow> jsdate \<Rightarrow> jsdate option" where
  "seek_weekday dow nextDate =
     (if getDay nextDate \<noteq> Some dow
      then seek_weekday dow (setDate nextDate (num_add (getDate nextDate) 1))
      else Some nextDate)"

declare seek_weekday.simps [code]

text \<open>Lines 833 to 838: the guard of the search.\<close>

definition adjust_dayOfWeek :: "recurring \<Rightarrow> jsdate \<Rightarrow> jsdate option" where
  "adjust_dayOfWeek r nextDate =
     (case dayOfWeek r of
        None \<Rightarrow> Some nextDate
      | Some dow \<Rightarrow>
          if frequency r \<noteq> ''daily'' then seek_weekday dow nextDate else Some nextDate)"

text \<open>
  Lines 840 to 844.  The guard \<^verbatim>\<open>campaign.recurring.dayOfMonth && ...\<close> is false for
  \<^verbatim>\<open>undefined\<close> and for 0.
\<close>

definition adjust_dayOfMonth :: "recurring \<Rightarrow> jsdate \<Rightarrow> jsdate" where
  "adjust_dayOfMonth r nextDate =
     (case dayOfMonth r of
        None \<Rightarrow> nextDate
      | Some dm \<Rightarrow>
          if dm \<noteq> 0 \<and> frequency r \<in> set [''monthly'', ''quarterly'']
          then (let maxDay = getDate (new_Date (getFullYear nextDate)
                                               (num_add (getMonth nextDate) 1) (Some 0))
                in setDate nextDate (Math_min (Some dm) maxDay))
          else nextDate)"

text \<open>Lines 847 to 850.  The guard is false for \<^verbatim>\<open>undefined\<close> and for the empty string.\<close>

definition apply_timeOfDay :: "recurring \<Rightarrow> jsdate \<Rightarrow> jsdate" where
  "apply_timeOfDay r nextDate =
     (case timeOfDay r of
        None \<Rightarrow> nextDate
      | Some s \<Rightarrow>
          if s \<noteq> []
          then (let parts = map Number (split CHR '':'' s);
                    hours = element parts 0;
                    minutes = element parts 1
                in setHours nextDate hours minutes (Some 0) (Some 0))
          else nextDate)"

text \<open>
  Lines 810 to 850 as a whole: \<^verbatim>\<open>nextDate = new Date()\<close> holds the reading \<open>now\<close> of the
  clock, then the four steps follow in the order of the source.  The result is \<open>None\<close> when
  the search for the day of the week does not end.
\<close>

definition next_date :: "recurring \<Rightarrow> int \<Rightarrow> jsdate option" where
  "next_date r now =
     (case adjust_dayOfWeek r (advance_interval (frequency r) (TimeValue now)) of
        None \<Rightarrow> None
      | Some d \<Rightarrow> Some (apply_timeOfDay r (adjust_dayOfMonth r d)))"

section \<open>The campaign collection and the collaborators\<close>

text \<open>
  A document of the collection \<^verbatim>\<open>EmailCampaign\<close> (the fields that the scheduler reads
  or writes; \<open>cid\<close> is \<^verbatim>\<open>_id\<close>, \<open>ctype\<close> is \<^verbatim>\<open>type\<close>).  The collection is the list
  of its documents.
\<close>

datatype status = draft | scheduled | sending | sent | cancelled

record campaign =
  cid :: nat
  name :: string
  description :: string
  ctype :: string
  template :: nat
  segment :: "(string \<times> string) list"
  scheduledFor :: "jsdate option"
  recurring :: recurring
  status :: status
  mailchimpCampaignId :: "string option"

text \<open>
  What the world outside answers during one iteration of the loop over the
  campaigns: the two readings of the clock (\<open>clock\<close> for \<^verbatim>\<open>now = new Date()\<close> of line
  803, \<open>clock_next\<close> for \<^verbatim>\<open>nextDate = new Date()\<close> of line 810), and for every call
  that can be rejected whether it is.  \<open>db_create\<close> and \<open>db_save\<close> hold the message of the error when
  \<^verbatim>\<open>EmailCampaign.create\<close> and \<^verbatim>\<open>campaign.save\<close> reject; \<open>mc_create\<close> holds the id that
  \<^verbatim>\<open>mailchimp.campaigns.create\<close> answers, \<open>None\<close> when it rejects; \<open>template_found\<close>
  is false when \<^verbatim>\<open>EmailTemplate.findById\<close> rejects or finds nothing.
\<close>

record effects =
  clock :: int
  clock_next :: int
  db_create :: "string option"
  template_found :: bool
  mc_create :: "string option"
  mc_setContent :: bool
  db_update :: bool
  mc_schedule :: bool
  db_save :: "string option"

text \<open>
  The objects \<^verbatim>\<open>{ success: true, message, data }\<close> and
  \<^verbatim>\<open>{ success: false, message, error }\<close> that the methods of the service return.
\<close>

datatype 'a response = Success string 'a | Failure string

text \<open>An entry of \<^verbatim>\<open>results\<close>: \<^verbatim>\<open>{ campaign, nextScheduled, success: true }\<close> or
  \<^verbatim>\<open>{ campaign, success: false, error }\<close>.\<close>

datatype outcome = Outcome_success string jsdate | Outcome_failure string string

text \<open>\<^verbatim>\<open>EmailCampaign.findByIdAndUpdate(id, { mailchimpCampaignId, status })\<close>.\<close>

definition findByIdAndUpdate :: "nat \<Rightarrow> string \<Rightarrow> status \<Rightarrow> campaign list \<Rightarrow> campaign list" where
  "findByIdAndUpdate i mid st store =
     map (\<lambda>c. if cid c = i then c\<lparr>mailchimpCampaignId := Some mid, status := st\<rparr> else c) store"

text \<open>\<^verbatim>\<open>campaign.save()\<close>: the document with the id of \<open>c\<close> becomes \<open>c\<close>.\<close>

definition save :: "campaign \<Rightarrow> campaign list \<Rightarrow> campaign list" where
  "save c store = map (\<lambda>d. if cid d = cid c then c else d) store"

text \<open>An id that no document of the collection has.\<close>

definition fresh_id :: "campaign list \<Rightarrow> nat" where
  "fresh_id store = Suc (foldr max (map cid store) 0)"

text \<open>
  \<^verbatim>\<open>createCampaign\<close> (lines 146 to 241): every rejection inside is caught and
  answered with \<^verbatim>\<open>success: false\<close>; the document is written (lines 230 to 233) after
  Mailchimp has accepted the campaign and its content.
\<close>

definition createCampaign :: "effects \<Rightarrow> campaign list \<Rightarrow> campaign \<Rightarrow> campaign list \<times> string response" where
  "createCampaign e store c =
     (if \<not> template_found e then (store, Failure ''Error creating campaign in Mailchimp'')
      else case mc_create e of
        None \<Rightarrow> (store, Failure ''Error creating campaign in Mailchimp'')
      | Some mid \<Rightarrow>
          if \<not> mc_setContent e then (store, Failure ''Error creating campaign in Mailchimp'')
          else if \<not> db_update e then (store, Failure ''Error creating campaign in Mailchimp'')
          else (findByIdAndUpdate (cid c) mid scheduled store,
                Success ''Campaign created in Mailchimp'' mid))"

text \<open>
  \<^verbatim>\<open>scheduleCampaign\<close> (lines 249 to 266): \<^verbatim>\<open>toISOString\<close> throws on an invalid date
  and on \<^verbatim>\<open>undefined\<close>, inside the \<^verbatim>\<open>try\<close>.
\<close>

definition scheduleCampaign :: "effects \<Rightarrow> string \<Rightarrow> jsdate option \<Rightarrow> unit response" where
  "scheduleCampaign e campaignId scheduledTime =
     (case scheduledTime of
        Some (TimeValue t) \<Rightarrow>
          if mc_schedule e then Success ''Campaign scheduled in Mailchimp'' ()
          else Failure ''Error scheduling campaign in Mailchimp''
      | _ \<Rightarrow> Failure ''Error scheduling campaign in Mailchimp'')"

text \<open>The time value that is stored for a date; nothing for an invalid one.\<close>

definition stored_date :: "jsdate \<Rightarrow> int option" where
  "stored_date d = (case d of InvalidDate \<Rightarrow> None | TimeValue t \<Rightarrow> Some t)"

text \<open>Line 806: \<^verbatim>\<open>!nextScheduled || nextScheduled <= now\<close>.\<close>

definition is_due :: "recurring \<Rightarrow> int \<Rightarrow> bool" where
  "is_due r now = (case nextScheduled r of None \<Rightarrow> True | Some n \<Rightarrow> n \<le> now)"

text \<open>
  Lines 853 to 861: the document that \<^verbatim>\<open>EmailCampaign.create\<close> stores, with the
  defaults of the schema for the fields that are not given.  \<open>fmt\<close> is
  \<^verbatim>\<open>toLocaleDateString\<close>, which depends on the locale of the host.
\<close>

definition new_campaign :: "(jsdate \<Rightarrow> string) \<Rightarrow> campaign list \<Rightarrow> campaign \<Rightarrow> jsdate \<Rightarrow> campaign" where
  "new_campaign fmt store c nextDate =
     \<lparr>cid = fresh_id store,
      name = name c @ '' - '' @ fmt nextDate,
      description = description c,
      ctype = ctype c,
      template = template c,
      segment = segment c,
      scheduledFor = Some nextDate,
      recurring = \<lparr>enabled = False, frequency = ''monthly'', dayOfWeek = None,
                   dayOfMonth = None, timeOfDay = Some ''09:00'', lastSent = None,
                   nextScheduled = None\<rparr>,
      status = draft,
      mailchimpCampaignId = None\<rparr>"

text \<open>
  The body of the loop (lines 801 to 897) for the campaign \<open>c\<close>: the collection
  after it and what it pushes on \<^verbatim>\<open>results\<close>.  Every \<^verbatim>\<open>throw\<close> and every rejection
  inside ends in the \<^verbatim>\<open>catch\<close> of line 890.  \<open>None\<close>: the iteration never ends.
\<close>

definition process_campaign ::
  "(jsdate \<Rightarrow> string) \<Rightarrow> effects \<Rightarrow> campaign list \<Rightarrow> campaign \<Rightarrow> (campaign list \<times> outcome list) option" where
  "process_campaign fmt e store c =
     (let now = clock e in
      if is_due (recurring c) now then
        (case next_date (recurring c) (clock_next e) of
           None \<Rightarrow> None
         | Some nextDate \<Rightarrow>
             (case db_create e of
                Some err \<Rightarrow> Some (store, [Outcome_failure (name c) err])
              | None \<Rightarrow>
                  (let newCampaign = new_campaign fmt store c nextDate
                   in case createCampaign e (store @ [newCampaign]) newCampaign of
                        (store1, Failure m) \<Rightarrow>
                          Some (store1, [Outcome_failure (name c)
                                  (''Failed to create campaign in Mailchimp: '' @ m)])
                      | (store1, Success m1 mid) \<Rightarrow>
                          (case scheduleCampaign e mid (scheduledFor newCampaign) of
                             Failure m \<Rightarrow>
                               Some (store1, [Outcome_failure (name c)
                                       (''Failed to schedule campaign in Mailchimp: '' @ m)])
                           | Success m2 u \<Rightarrow>
                               (let c' = c\<lparr>recurring := (recurring c)
                                            \<lparr>lastSent := Some now,
                                             nextScheduled := stored_date nextDate\<rparr>\<rparr>
                                in case db_save e of
                                     Some err \<Rightarrow> Some (store1, [Outcome_failure (name c) err])
                                   | None \<Rightarrow>
                                       Some (save c' store1,
                                             [Outcome_success (name c) nextDate]))))))
      else Some (store, []))"

text \<open>The loop of line 800 over the campaigns that were found; \<open>i\<close> counts the iterations.\<close>

fun process_loop ::
  "(jsdate \<Rightarrow> string) \<Rightarrow> (nat \<Rightarrow> effects) \<Rightarrow> nat \<Rightarrow> campaign list \<Rightarrow> campaign list \<Rightarrow> outcome list
     \<Rightarrow> (campaign list \<times> outcome list) option" where
  "process_loop fmt env i [] store results = Some (store, results)"
| "process_loop fmt env i (c # cs) store results =
     (case process_campaign fmt (env i) store c of
        None \<Rightarrow> None
      | Some (store1, pushed) \<Rightarrow> process_loop fmt env (Suc i) cs store1 (results @ pushed))"

text \<open>Lines 791 to 794: the query \<^verbatim>\<open>{ 'recurring.enabled': true, status: { $in: ['draft', 'sent'] } }\<close>.\<close>

definition find_recurring :: "campaign list \<Rightarrow> campaign list" where
  "find_recurring store =
     filter (\<lambda>c. enabled (recurring c) = True \<and> status c \<in> set [draft, sent]) store"

text \<open>The object that \<^verbatim>\<open>processRecurringCampaigns\<close> returns; \<^verbatim>\<open>results\<close> is absent in
  the answer of the outer \<^verbatim>\<open>catch\<close>.\<close>

record processing_result =
  success :: bool
  message :: string
  results :: "outcome list option"

text \<open>
  \<^verbatim>\<open>processRecurringCampaigns\<close> (lines 786 to 906).  \<open>find_ok\<close> is false when the query
  of line 791 rejects.  The result is the collection after the pass and the object
  returned, or \<open>None\<close> when the pass never returns.
\<close>

definition processRecurringCampaigns ::
  "(jsdate \<Rightarrow> string) \<Rightarrow> bool \<Rightarrow> (nat \<Rightarrow> effects) \<Rightarrow> campaign list
     \<Rightarrow> (campaign list \<times> processing_result) option" where
  "processRecurringCampaigns fmt find_ok env store =
     (if \<not> find_ok
      then Some (store, \<lparr>success = False, message = ''Error processing recurring campaigns'',
                         results = None\<rparr>)
      else case process_loop fmt env 0 (find_recurring store) store [] of
             None \<Rightarrow> None
           | Some (store1, rs) \<Rightarrow>
               Some (store1, \<lparr>success = True, message = ''Recurring campaigns processed'',
                              results = Some rs\<rparr>))"

section \<open>Notions used to state the properties\<close>

text \<open>The number of days of month \<open>m\<close> (0 = January) of year \<open>y\<close>.\<close>

definition DaysInMonth :: "int \<Rightarrow> int \<Rightarrow> int" where
  "DaysInMonth y m = monthStart (leapDays y) (m + 1) - monthStart (leapDays y) m"

text \<open>Months counted through the years: month \<open>m\<close> of year \<open>y\<close> has index \<open>12 * y + m\<close>.\<close>

definition monthIndex :: "int \<Rightarrow> int" where
  "monthIndex t = 12 * YearFromTime t + MonthFromTime t"

text \<open>
  A reading of the clock at or after 1970-01-01 and at least 366 days before the
  end of the range of time values (the year 275760).
\<close>

definition clock_in_range :: "int \<Rightarrow> bool" where
  "clock_in_range now = (0 \<le> now \<and> now + 366 * msPerDay \<le> 8640000000000000)"

text \<open>The readings of the clock in one iteration: the second one is not before the
  first and is in range.\<close>

definition clocks_in_range :: "effects \<Rightarrow> bool" where
  "clocks_in_range e = (clock e \<le> clock_next e \<and> clock_in_range (clock_next e))"

text \<open>A time of day \<^verbatim>\<open>HH:MM\<close> on the 24-hour clock, as the schema documents it.\<close>

definition valid_timeOfDay :: "string \<Rightarrow> bool" where
  "valid_timeOfDay s =
     (case s of
        [a, b, c, d, e] \<Rightarrow>
          c = CHR '':'' \<and>
          (case (digit a, digit b, digit d, digit e) of
             (Some h1, Some h2, Some m1, Some m2) \<Rightarrow> 10 * h1 + h2 \<le> 23 \<and> 10 * m1 + m2 \<le> 59
           | _ \<Rightarrow> False)
      | _ \<Rightarrow> False)"

text \<open>The constraints of the schema on the settings of a rule: \<^verbatim>\<open>dayOfWeek\<close> from 0 to
  6, \<^verbatim>\<open>dayOfMonth\<close> from 1 to 31, \<^verbatim>\<open>timeOfDay\<close> of the form \<^verbatim>\<open>HH:MM\<close>; each may be
  absent.\<close>

definition valid_dayOfWeek :: "recurring \<Rightarrow> bool" where
  "valid_dayOfWeek r = (case dayOfWeek r of None \<Rightarrow> True | Some w \<Rightarrow> 0 \<le> w \<and> w \<le> 6)"

definition valid_rule :: "recurring \<Rightarrow> bool" where
  "valid_rule r =
     (valid_dayOfWeek r \<and>
      (case dayOfMonth r of None \<Rightarrow> True | Some d \<Rightarrow> 1 \<le> d \<and> d \<le> 31) \<and>
      (case timeOfDay r of None \<Rightarrow> True | Some s \<Rightarrow> valid_timeOfDay s))"

text \<open>The number of months by which the \<^verbatim>\<open>switch\<close> moves the date for a frequency that
  is not counted in days.\<close>

definition months_of :: "string \<Rightarrow> nat" where
  "months_of f = (if f = ''quarterly'' then 3 else 1)"

text \<open>The create step of the dispatch fails: one of the calls inside \<^verbatim>\<open>createCampaign\<close>
  is rejected.\<close>

definition create_fails :: "effects \<Rightarrow> bool" where
  "create_fails e =
     (\<not> template_found e \<or> mc_create e = None \<or> \<not> mc_setContent e \<or> \<not> db_update e)"

text \<open>The dispatch is reached (the new document was stored) and fails at its create
  step or at its schedule step.\<close>

definition dispatch_fails :: "effects \<Rightarrow> bool" where
  "dispatch_fails e = (db_create e = None \<and> (create_fails e \<or> \<not> mc_schedule e))"

text \<open>The message of the error that line 866 or line 876 throws.\<close>

definition dispatch_error :: "effects \<Rightarrow> string" where
  "dispatch_error e =
     (if create_fails e
      then ''Failed to create campaign in Mailchimp: Error creating campaign in Mailchimp''
      else ''Failed to schedule campaign in Mailchimp: Error scheduling campaign in Mailchimp'')"

text \<open>Every call of the iteration is accepted.\<close>

definition all_accepted :: "effects \<Rightarrow> bool" where
  "all_accepted e =
     (db_create e = None \<and> \<not> create_fails e \<and> mc_schedule e \<and> db_save e = None)"

text \<open>The field \<^verbatim>\<open>campaign\<close> of an entry of \<^verbatim>\<open>results\<close>, and whether the entry reports
  a failure.\<close>

fun outcome_campaign :: "outcome \<Rightarrow> string" where
  "outcome_campaign (Outcome_success n d) = n"
| "outcome_campaign (Outcome_failure n m) = n"

fun is_failure :: "outcome \<Rightarrow> bool" where
  "is_failure (Outcome_success n d) = False"
| "is_failure (Outcome_failure n m) = True"

text \<open>The campaigns of a batch that are due when their iteration reads the clock;
  \<open>i\<close> is the number of the first iteration.\<close>

fun due_campaigns :: "(nat \<Rightarrow> effects) \<Rightarrow> nat \<Rightarrow> campaign list \<Rightarrow> campaign list" where
  "due_campaigns env i [] = []"
| "due_campaigns env i (c # cs) =
     (if is_due (recurring c) (clock (env i)) then c # due_campaigns env (Suc i) cs
      else due_campaigns env (Suc i) cs)"

text \<open>A definition after a successful firing at \<open>now\<close> with the next date \<open>t\<close>.\<close>

definition advanced :: "campaign \<Rightarrow> int \<Rightarrow> int \<Rightarrow> campaign" where
  "advanced c now t = c\<lparr>recurring := (recurring c)\<lparr>lastSent := Some now, nextScheduled := Some t\<rparr>\<rparr>"

text \<open>The invariant of the data model: where both dates are set, the next scheduled
  date is later than the date of the last firing.\<close>

definition schedule_ordered :: "campaign \<Rightarrow> bool" where
  "schedule_ordered c =
     (case (lastSent (recurring c), nextScheduled (recurring c)) of
        (Some l, Some n) \<Rightarrow> l < n
      | _ \<Rightarrow> True)"

text \<open>
  What one iteration, for the campaign \<open>c\<close> with the answers \<open>e\<close>, leaves in the
  collection \<open>store'\<close> and in the results \<open>rs\<close> of the pass: a campaign that is not
  advanced keeps its document; a failed dispatch is reported with its message; a
  firing whose calls are all accepted stores the advanced document and reports the
  next date, which is later than the reading of the clock.
\<close>

definition iteration_post :: "effects \<Rightarrow> campaign \<Rightarrow> campaign list \<Rightarrow> outcome list \<Rightarrow> bool" where
  "iteration_post e c store' rs =
     ((\<not> (is_due (recurring c) (clock e) \<and> all_accepted e) \<longrightarrow> c \<in> set store') \<and>
      (is_due (recurring c) (clock e) \<and> dispatch_fails e
         \<longrightarrow> Outcome_failure (name c) (dispatch_error e) \<in> set rs) \<and>
      (is_due (recurring c) (clock e) \<and> all_accepted e \<and> valid_rule (recurring c)
         \<longrightarrow> (\<exists>t. next_date (recurring c) (clock_next e) = Some (TimeValue t) \<and> clock e < t \<and>
               Outcome_success (name c) (TimeValue t) \<in> set rs \<and>
               advanced c (clock e) t \<in> set store')))"

section \<open>Values for the examples\<close>

text \<open>A definition that fires monthly on the 31st at 09:00, and the answers of a world
  in which every call is accepted, read at 2024-01-15T00:00.  \<open>date_label\<close> stands for
  \<^verbatim>\<open>toLocaleDateString\<close>, whose result only appears in the name of the new document.\<close>

definition example_rule :: recurring where
  "example_rule =
     \<lparr>enabled = True, frequency = ''monthly'', dayOfWeek = None, dayOfMonth = Some 31,
      timeOfDay = Some ''09:00'', lastSent = None, nextScheduled = None\<rparr>"

definition example_definition :: campaign where
  "example_definition =
     \<lparr>cid = 1, name = ''Monthly news'', description = ''News of the month'',
      ctype = ''newsletter'', template = 7, segment = [], scheduledFor = None,
      recurring = example_rule, status = draft, mailchimpCampaignId = None\<rparr>"

definition accepting :: effects where
  "accepting =
     \<lparr>clock = 1705276800000, clock_next = 1705276800003, db_create = None,
      template_found = True,
      mc_create = Some ''mc-1'', mc_setContent = True, db_update = True,
      mc_schedule = True, db_save = None\<rparr>"

definition all_accepting :: "nat \<Rightarrow> effects" where
  "all_accepting j = accepting"

definition create_rejected :: "nat \<Rightarrow> effects" where
  "create_rejected j = accepting\<lparr>mc_create := None\<rparr>"

definition schedule_rejected :: "nat \<Rightarrow> effects" where
  "schedule_rejected j = accepting\<lparr>mc_schedule := False\<rparr>"

definition date_label :: "jsdate \<Rightarrow> string" where
  "date_label d = (case d of InvalidDate \<Rightarrow> ''Invalid Date'' | TimeValue t \<Rightarrow> ''(date)'')"

section \<open>Calendar arithmetic\<close>

subsection \<open>Years\<close>

lemma div_bounds: "0 < (k::int) \<Longrightarrow> k * (x div k) \<le> x \<and> x < k * (x div k) + k"
  by (metis pos_mod_bound pos_mod_sign mult_div_mod_eq add_le_cancel_left add_less_cancel_left add.right_neutral)

lemma div_step:
  assumes "0 < (k::int)"
  shows "(x + 1) div k = x div k + (if (x + 1) mod k = 0 then 1 else 0)"
proof -
  define q where "q = x div k"
  define r where "r = x mod k"
  have x: "x = k * q + r" and r: "0 \<le> r" "r < k"
    using assms by (simp_all add: q_def r_def)
  show ?thesis
  proof (cases "r + 1 = k")
    case True
    then have e: "x + 1 = k * (q + 1) + 0" using x by (simp add: algebra_simps)
    have "(x + 1) div k = q + 1" using int_div_pos_eq[OF e] assms by simp
    moreover have "(x + 1) mod k = 0" using int_mod_pos_eq[OF e] assms by simp
    ultimately show ?thesis by (simp add: q_def)
  next
    case False
    then have e: "x + 1 = k * q + (r + 1)" and b: "0 \<le> r + 1" "r + 1 < k" using x r by simp_all
    have "(x + 1) div k = q" using int_div_pos_eq[OF e b] .
    moreover have "(x + 1) mod k = r + 1" using int_mod_pos_eq[OF e b] .
    ultimately show ?thesis using r by (simp add: q_def)
  qed
qed

lemma mod_sub_mult: "(y - c * k) mod k = y mod (k::int)"
proof -
  have "y - c * k = y + (- c) * k" by simp
  then show ?thesis by (metis mod_mult_self1)
qed

lemma mod_0_coarser:
  assumes "(y::int) mod a = 0" and "b dvd a"
  shows "y mod b = 0"
proof -
  have "a dvd y" using assms(1) by (simp add: mod_eq_0_iff_dvd)
  with assms(2) have "b dvd y" by (rule dvd_trans)
  then show ?thesis by (simp add: mod_eq_0_iff_dvd)
qed

lemma DayFromYear_bounds:
  "400 * DayFromYear y \<le> 146097 * y - 287810497"
  "146097 * y - 287811697 < 400 * DayFromYear y"
proof -
  define a where "a = (y - 1969) div 4"
  define b where "b = (y - 1901) div 100"
  define c where "c = (y - 1601) div 400"
  have e: "DayFromYear y = 365 * y - 719050 + a - b + c"
    unfolding DayFromYear_def a_def b_def c_def by (simp add: right_diff_distrib)
  have "4 * a \<le> y - 1969" "y - 1969 < 4 * a + 4" using div_bounds[of 4 "y - 1969"] by (simp_all add: a_def)
  moreover have "100 * b \<le> y - 1901" "y - 1901 < 100 * b + 100" using div_bounds[of 100 "y - 1901"] by (simp_all add: b_def)
  moreover have "400 * c \<le> y - 1601" "y - 1601 < 400 * c + 400" using div_bounds[of 400 "y - 1601"] by (simp_all add: c_def)
  ultimately show "400 * DayFromYear y \<le> 146097 * y - 287810497"
    "146097 * y - 287811697 < 400 * DayFromYear y"
    using e by linarith+
qed

lemma YearFromDay_spec: "DayFromYear (YearFromDay n) \<le> n \<and> n < DayFromYear (YearFromDay n + 1)"
proof -
  define q where "q = (400 * n) div 146097"
  define y1 where "y1 = 1969 + q"
  define y2 where "y2 = 1972 + q"
  have a: "146097 * q \<le> 400 * n" "400 * n < 146097 * q + 146097"
    unfolding q_def using div_bounds[of 146097 "400 * n"] by simp_all
  have l: "DayFromYear y1 \<le> n" using a DayFromYear_bounds(1)[of y1] y1_def by linarith
  have u: "n < DayFromYear y2" using a DayFromYear_bounds(2)[of y2] y2_def by linarith
  show ?thesis using l u unfolding YearFromDay_def q_def[symmetric] Let_def y1_def y2_def
    by (auto simp: algebra_simps)
qed

lemma DayFromYear_step: "DayFromYear (y + 1) = DayFromYear y + DaysInYear y"
proof -
  have a: "(y + 1 - 1969) div 4 = (y - 1969) div 4 + (if y mod 4 = 0 then 1 else 0)"
    using div_step[of 4 "y - 1969"] mod_sub_mult[of y 492 4] by (simp add: algebra_simps)
  have b: "(y + 1 - 1901) div 100 = (y - 1901) div 100 + (if y mod 100 = 0 then 1 else 0)"
    using div_step[of 100 "y - 1901"] mod_sub_mult[of y 19 100] by (simp add: algebra_simps)
  have c: "(y + 1 - 1601) div 400 = (y - 1601) div 400 + (if y mod 400 = 0 then 1 else 0)"
    using div_step[of 400 "y - 1601"] mod_sub_mult[of y 4 400] by (simp add: algebra_simps)
  have d: "y mod 100 = 0 \<Longrightarrow> y mod 4 = 0" "y mod 400 = 0 \<Longrightarrow> y mod 100 = 0"
    by (erule mod_0_coarser, simp)+
  have e: "DayFromYear (y + 1) = 365 * (y - 1970) + 365 + (y + 1 - 1969) div 4 - (y + 1 - 1901) div 100 + (y + 1 - 1601) div 400"
    unfolding DayFromYear_def by (simp add: algebra_simps)
  show ?thesis
  proof (cases "y mod 4 = 0")
    case False
    then show ?thesis using d unfolding e a b c DayFromYear_def DaysInYear_def by auto
  next
    case True
    then show ?thesis using d unfolding e a b c DayFromYear_def DaysInYear_def by auto
  qed
qed

lemma DaysInYear_pos: "365 \<le> DaysInYear y" "DaysInYear y \<le> 366"
  by (simp_all add: DaysInYear_def)

lemma DayFromYear_mono_nat: "DayFromYear y + 365 * int k \<le> DayFromYear (y + int k)"
proof (induction k)
  case 0
  show ?case by simp
next
  case (Suc k)
  have "y + int (Suc k) = y + int k + 1" by simp
  then have "DayFromYear (y + int (Suc k)) = DayFromYear (y + int k) + DaysInYear (y + int k)"
    using DayFromYear_step[of "y + int k"] by (simp only:)
  then show ?case using Suc DaysInYear_pos(1)[of "y + int k"] by simp
qed

lemma DayFromYear_less: "y < y' \<Longrightarrow> DayFromYear y < DayFromYear y'"
proof -
  assume a: "y < y'"
  define k where "k = nat (y' - y)"
  have k: "y' = y + int k" "0 < k" using a by (simp_all add: k_def)
  show ?thesis using DayFromYear_mono_nat[of y k] k by simp
qed

lemma DayFromYear_le: "y \<le> y' \<Longrightarrow> DayFromYear y \<le> DayFromYear y'"
  using DayFromYear_less[of y y'] by (cases "y = y'") auto

lemma YearFromDay_unique:
  assumes "DayFromYear y \<le> n" and "n < DayFromYear (y + 1)"
  shows "YearFromDay n = y"
proof (rule ccontr)
  assume ne: "YearFromDay n \<noteq> y"
  have s: "DayFromYear (YearFromDay n) \<le> n" "n < DayFromYear (YearFromDay n + 1)"
    using YearFromDay_spec[of n] by simp_all
  show False
  proof (cases "YearFromDay n < y")
    case True
    then have "DayFromYear (YearFromDay n + 1) \<le> DayFromYear y" by (intro DayFromYear_le) simp
    with s assms show False by simp
  next
    case False
    with ne have "DayFromYear (y + 1) \<le> DayFromYear (YearFromDay n)" by (intro DayFromYear_le) simp
    with s assms show False by simp
  qed
qed

subsection \<open>Months\<close>

lemma leapDays_cases: "leapDays y = 0 \<or> leapDays y = 1"
  by (simp add: leapDays_def)

lemma DaysInYear_leapDays: "DaysInYear y = 365 + leapDays y"
  using DaysInYear_pos[of y] by (simp add: leapDays_def)

lemma month_cases:
  assumes "0 \<le> (m::int)" "m \<le> 11"
  shows "m = 0 \<or> m = 1 \<or> m = 2 \<or> m = 3 \<or> m = 4 \<or> m = 5 \<or> m = 6 \<or> m = 7 \<or> m = 8 \<or> m = 9 \<or> m = 10 \<or> m = 11"
  using assms by arith

lemma monthStart_less:
  assumes "0 \<le> m" "m \<le> 11" "l = 0 \<or> l = 1"
  shows "monthStart l m + 28 \<le> monthStart l (m + 1)" "monthStart l (m + 1) \<le> monthStart l m + 31"
  using month_cases[OF assms(1,2)] assms(3) by (auto simp: monthStart_def)

lemma monthStart_range:
  assumes "0 \<le> m" "m \<le> 11" "l = 0 \<or> l = 1"
  shows "0 \<le> monthStart l m" "monthStart l (m + 1) \<le> 365 + l"
  using month_cases[OF assms(1,2)] assms(3) by (auto simp: monthStart_def)

lemma monthOfDay_range: "0 \<le> monthOfDay l d \<and> monthOfDay l d \<le> 11"
  by (simp add: monthOfDay_def)

lemma monthOfDay_bounds:
  assumes "0 \<le> d" "d < 365 + l"
  shows "monthStart l (monthOfDay l d) \<le> d \<and> d < monthStart l (monthOfDay l d + 1)"
  using assms by (simp add: monthOfDay_def monthStart_def)

lemma monthOfDay_unique:
  assumes "0 \<le> m" "m \<le> 11" "l = 0 \<or> l = 1" "monthStart l m \<le> d" "d < monthStart l (m + 1)"
  shows "monthOfDay l d = m"
  using month_cases[OF assms(1,2)] assms(3,4,5)
  by (elim disjE) (simp_all add: monthOfDay_def monthStart_def)

subsection \<open>Time values and their fields\<close>

lemma Day_MakeDate:
  assumes "0 \<le> tm" "tm < msPerDay"
  shows "Day (MakeDate d tm) = d" "TimeWithinDay (MakeDate d tm) = tm"
proof -
  have e: "MakeDate d tm = msPerDay * d + tm" by (simp add: MakeDate_def)
  show "Day (MakeDate d tm) = d" unfolding Day_def using int_div_pos_eq[OF e assms] .
  show "TimeWithinDay (MakeDate d tm) = tm" unfolding TimeWithinDay_def using int_mod_pos_eq[OF e assms] .
qed

lemma TimeWithinDay_range: "0 \<le> TimeWithinDay t" "TimeWithinDay t < msPerDay"
  by (simp_all add: TimeWithinDay_def msPerDay_def)

lemma MakeDate_Day: "MakeDate (Day t) (TimeWithinDay t) = t"
  by (simp add: MakeDate_def Day_def TimeWithinDay_def)

lemma YearFromTime_largest:
  "TimeFromYear (YearFromTime t) \<le> t \<and> (\<forall>y. TimeFromYear y \<le> t \<longrightarrow> y \<le> YearFromTime t)"
proof -
  have s: "DayFromYear (YearFromTime t) \<le> Day t" "Day t < DayFromYear (YearFromTime t + 1)"
    using YearFromDay_spec[of "Day t"] by (simp_all add: YearFromTime_def)
  have d: "msPerDay * Day t \<le> t" "t < msPerDay * Day t + msPerDay"
    using div_bounds[of msPerDay t] by (simp_all add: Day_def msPerDay_def)
  have "TimeFromYear (YearFromTime t) \<le> t"
  proof -
    have "msPerDay * DayFromYear (YearFromTime t) \<le> msPerDay * Day t"
      using s(1) by (simp add: msPerDay_def)
    then show ?thesis using d(1) by (simp add: TimeFromYear_def)
  qed
  moreover have "y \<le> YearFromTime t" if "TimeFromYear y \<le> t" for y
  proof (rule ccontr)
    assume "\<not> y \<le> YearFromTime t"
    then have "DayFromYear (YearFromTime t + 1) \<le> DayFromYear y" by (intro DayFromYear_le) simp
    then have "Day t + 1 \<le> DayFromYear y" using s(2) by simp
    then have "msPerDay * (Day t + 1) \<le> msPerDay * DayFromYear y" by (simp add: msPerDay_def)
    then have "msPerDay * Day t + msPerDay \<le> TimeFromYear y"
      by (simp add: TimeFromYear_def distrib_left)
    with that d(2) show False by simp
  qed
  ultimately show ?thesis by blast
qed

lemma DayWithinYear_range:
  "0 \<le> DayWithinYear t" "DayWithinYear t < 365 + leapDays (YearFromTime t)"
  using YearFromDay_spec[of "Day t"] DayFromYear_step[of "YearFromTime t"]
    DaysInYear_leapDays[of "YearFromTime t"]
  by (simp_all add: DayWithinYear_def YearFromTime_def)

lemma MonthFromTime_range: "0 \<le> MonthFromTime t" "MonthFromTime t \<le> 11"
  using monthOfDay_range by (simp_all add: MonthFromTime_def InLeapYear_def)

lemma DateFromTime_range:
  "1 \<le> DateFromTime t" "DateFromTime t \<le> DaysInMonth (YearFromTime t) (MonthFromTime t)"
  using monthOfDay_bounds[OF DayWithinYear_range, of t]
  by (simp_all add: DateFromTime_def MonthFromTime_def InLeapYear_def DaysInMonth_def)

lemma MakeDay_month: "0 \<le> m \<Longrightarrow> m \<le> 11 \<Longrightarrow> MakeDay y m d = DayFromYear y + monthStart (leapDays y) m + d - 1"
  by (simp add: MakeDay_def)

lemma MakeDay_fields: "MakeDay (YearFromTime t) (MonthFromTime t) (DateFromTime t) = Day t"
  using MonthFromTime_range[of t]
  by (simp add: MakeDay_month DateFromTime_def InLeapYear_def DayWithinYear_def)

lemma MakeDay_date: "MakeDay y m (d + k) = MakeDay y m d + k"
  by (simp add: MakeDay_def Let_def)

lemma fields_of_MakeDay:
  assumes m: "0 \<le> m" "m \<le> 11" and d: "1 \<le> d" "d \<le> DaysInMonth y m"
    and t: "Day t = MakeDay y m d"
  shows "YearFromTime t = y" "MonthFromTime t = m" "DateFromTime t = d"
proof -
  define l where "l = leapDays y"
  have l: "l = 0 \<or> l = 1" using leapDays_cases by (simp add: l_def)
  have n: "Day t = DayFromYear y + (monthStart l m + d - 1)"
    using t m by (simp add: MakeDay_month l_def)
  have r: "0 \<le> monthStart l m" "monthStart l (m + 1) \<le> 365 + l"
    using monthStart_range[OF m l] by simp_all
  have w: "monthStart l m \<le> monthStart l m + d - 1" "monthStart l m + d - 1 < monthStart l (m + 1)"
    using d by (simp_all add: DaysInMonth_def l_def)
  have "DayFromYear y \<le> Day t" using n r w by simp
  moreover have "Day t < DayFromYear (y + 1)"
    using n r w DayFromYear_step[of y] DaysInYear_leapDays[of y] by (simp add: l_def)
  ultimately show y: "YearFromTime t = y" unfolding YearFromTime_def by (rule YearFromDay_unique)
  have dw: "DayWithinYear t = monthStart l m + d - 1" using n y by (simp add: DayWithinYear_def)
  show mm: "MonthFromTime t = m"
    unfolding MonthFromTime_def InLeapYear_def y dw l_def[symmetric] using m l w by (rule monthOfDay_unique)
  show "DateFromTime t = d" unfolding DateFromTime_def InLeapYear_def mm y dw l_def[symmetric] by simp
qed

lemma WeekDay_range: "0 \<le> WeekDay t" "WeekDay t \<le> 6"
  by (simp_all add: WeekDay_def) 

text \<open>The day that \<open>MakeDay\<close> computes for the date 1 is the first of month \<open>mn\<close> of
  year \<open>ym\<close>, as the standard asks.\<close>

lemma MakeDay_first:
  assumes "Day t = MakeDay year month 1"
  shows "YearFromTime t = year + month div 12" "MonthFromTime t = month mod 12"
    "DateFromTime t = 1"
proof -
  have m: "0 \<le> month mod 12" "month mod 12 \<le> 11" by simp_all
  have e: "Day t = MakeDay (year + month div 12) (month mod 12) 1"
    using assms by (simp add: MakeDay_def)
  have r: "(1::int) \<le> 1" "1 \<le> DaysInMonth (year + month div 12) (month mod 12)"
    using monthStart_less(1)[OF m leapDays_cases[of "year + month div 12"]]
    by (simp_all add: DaysInMonth_def)
  show "YearFromTime t = year + month div 12" "MonthFromTime t = month mod 12"
    "DateFromTime t = 1"
    using fields_of_MakeDay[OF m r e] by simp_all
qed

subsection \<open>Months in sequence\<close>

text \<open>The month with index \<open>12 * y + m\<close> is month \<open>m\<close> of year \<open>y\<close>; \<open>MakeDay\<close> depends on
  the year and the month through this index only.\<close>

lemma MakeDay_index: "MakeDay y m d = MakeDay 0 (12 * y + m) d"
proof -
  have "(12 * y + m) div 12 = y + m div 12" by simp
  moreover have "(12 * y + m) mod 12 = m mod 12" by simp
  ultimately show ?thesis unfolding MakeDay_def Let_def by simp
qed

lemma DaysInMonth_range:
  assumes "0 \<le> m" "m \<le> 11"
  shows "28 \<le> DaysInMonth y m" "DaysInMonth y m \<le> 31"
  using monthStart_less[OF assms leapDays_cases[of y]] by (simp_all add: DaysInMonth_def)

lemma MakeDay_next_month:
  "MakeDay 0 (i + 1) d = MakeDay 0 i d + DaysInMonth (i div 12) (i mod 12)"
proof (cases "(i + 1) mod 12 = 0")
  case True
  have m: "i mod 12 = 11"
  proof (rule ccontr)
    assume n: "i mod 12 \<noteq> 11"
    have r: "0 \<le> i mod 12" "i mod 12 < 12" by simp_all
    then have "0 \<le> i mod 12 + 1" "i mod 12 + 1 < 12" using n by linarith+
    then have "(i mod 12 + 1) mod 12 = i mod 12 + 1" by (rule mod_pos_pos_trivial)
    moreover have "(i + 1) mod 12 = (i mod 12 + 1) mod 12" by (simp add: mod_add_left_eq)
    ultimately show False using True r by simp
  qed
  have q: "(i + 1) div 12 = i div 12 + 1" using div_step[of 12 i] True by simp
  show ?thesis unfolding MakeDay_def Let_def DaysInMonth_def q True m
    using DayFromYear_step[of "i div 12"] DaysInYear_leapDays[of "i div 12"]
    by (simp add: monthStart_def)
next
  case False
  have q: "(i + 1) div 12 = i div 12" using div_step[of 12 i] False by simp
  have "(i + 1) mod 12 = (i mod 12 + 1) mod 12" by (simp add: mod_add_left_eq)
  moreover have "i mod 12 + 1 < 12"
  proof (rule ccontr)
    assume "\<not> i mod 12 + 1 < 12"
    moreover have "i mod 12 < 12" by simp
    ultimately have "i mod 12 + 1 = 12" by linarith
    then have "(i mod 12 + 1) mod 12 = 0" by simp
    then show False using False by (simp add: mod_add_left_eq)
  qed
  ultimately have m: "(i + 1) mod 12 = i mod 12 + 1" by simp
  show ?thesis unfolding MakeDay_def Let_def DaysInMonth_def q m by simp
qed

lemma MakeDay_months_ahead:
  "MakeDay 0 i d + 28 * int k \<le> MakeDay 0 (i + int k) d \<and>
   MakeDay 0 (i + int k) d \<le> MakeDay 0 i d + 31 * int k"
proof (induction k)
  case 0
  show ?case by simp
next
  case (Suc k)
  have e: "i + int (Suc k) = i + int k + 1" by simp
  have r: "0 \<le> (i + int k) mod 12" "(i + int k) mod 12 \<le> 11" by simp_all
  have s: "MakeDay 0 (i + int (Suc k)) d =
      MakeDay 0 (i + int k) d + DaysInMonth ((i + int k) div 12) ((i + int k) mod 12)"
    unfolding e by (rule MakeDay_next_month)
  show ?case using Suc DaysInMonth_range[OF r, of "(i + int k) div 12"] unfolding s by simp
qed

lemma MakeDay_index_less: "i < j \<Longrightarrow> MakeDay 0 i d < MakeDay 0 j d"
proof -
  assume a: "i < j"
  define k where "k = nat (j - i)"
  have k: "j = i + int k" "0 < k" using a by (simp_all add: k_def)
  show ?thesis using MakeDay_months_ahead[of i d k] k by simp
qed

lemma MakeDay_index_le: "i \<le> j \<Longrightarrow> MakeDay 0 i d \<le> MakeDay 0 j d"
  using MakeDay_index_less[of i j d] by (cases "i = j") auto

lemma MakeDay_index_reflect: "MakeDay 0 i d < MakeDay 0 j d \<Longrightarrow> i < j"
  using MakeDay_index_le[of j i d] by (cases "i < j") auto

lemma monthIndex_div_mod:
  "monthIndex t div 12 = YearFromTime t" "monthIndex t mod 12 = MonthFromTime t"
  using MonthFromTime_range[of t] by (simp_all add: monthIndex_def)

lemma Day_as_MakeDay: "Day t = MakeDay 0 (monthIndex t) (DateFromTime t)"
  unfolding monthIndex_def
  using MakeDay_index[of "YearFromTime t" "MonthFromTime t" "DateFromTime t"] MakeDay_fields[of t]
  by simp

lemma MakeDay_shift: "MakeDay y m d = MakeDay y m 1 + d - 1"
  by (simp add: MakeDay_def Let_def)

lemma month_span:
  "MakeDay 0 (monthIndex t) 1 \<le> Day t" "Day t < MakeDay 0 (monthIndex t + 1) 1"
proof -
  have d: "Day t = MakeDay 0 (monthIndex t) 1 + DateFromTime t - 1"
    using Day_as_MakeDay[of t] MakeDay_shift[of 0 "monthIndex t" "DateFromTime t"] by simp
  show "MakeDay 0 (monthIndex t) 1 \<le> Day t" using d DateFromTime_range(1)[of t] by simp
  have "MakeDay 0 (monthIndex t + 1) 1 =
      MakeDay 0 (monthIndex t) 1 + DaysInMonth (YearFromTime t) (MonthFromTime t)"
    using MakeDay_next_month[of "monthIndex t" 1] by (simp add: monthIndex_div_mod)
  then show "Day t < MakeDay 0 (monthIndex t + 1) 1"
    using d DateFromTime_range(2)[of t] by simp
qed

lemma monthIndex_mono:
  assumes "Day a \<le> Day b"
  shows "monthIndex a \<le> monthIndex b"
proof (rule ccontr)
  assume "\<not> monthIndex a \<le> monthIndex b"
  then have "monthIndex b + 1 \<le> monthIndex a" by simp
  then have "MakeDay 0 (monthIndex b + 1) 1 \<le> MakeDay 0 (monthIndex a) 1"
    by (rule MakeDay_index_le)
  with month_span(2)[of b] month_span(1)[of a] assms show False by simp
qed

text \<open>\<^verbatim>\<open>setMonth(getMonth() + k)\<close> on the level of days.\<close>

lemma MakeDay_months_later:
  "Day t + 28 * int k \<le> MakeDay (YearFromTime t) (MonthFromTime t + int k) (DateFromTime t)"
  "MakeDay (YearFromTime t) (MonthFromTime t + int k) (DateFromTime t) \<le> Day t + 31 * int k"
  "MakeDay 0 (monthIndex t + int k) 1 \<le> MakeDay (YearFromTime t) (MonthFromTime t + int k) (DateFromTime t)"
proof -
  have e: "MakeDay (YearFromTime t) (MonthFromTime t + int k) (DateFromTime t)
      = MakeDay 0 (monthIndex t + int k) (DateFromTime t)"
    using MakeDay_index[of "YearFromTime t" "MonthFromTime t + int k"]
    by (simp add: monthIndex_def add.assoc)
  show "Day t + 28 * int k \<le> MakeDay (YearFromTime t) (MonthFromTime t + int k) (DateFromTime t)"
    "MakeDay (YearFromTime t) (MonthFromTime t + int k) (DateFromTime t) \<le> Day t + 31 * int k"
    unfolding e using MakeDay_months_ahead[of "monthIndex t" "DateFromTime t" k] Day_as_MakeDay[of t]
    by simp_all
  show "MakeDay 0 (monthIndex t + int k) 1 \<le> MakeDay (YearFromTime t) (MonthFromTime t + int k) (DateFromTime t)"
    unfolding e using MakeDay_shift[of 0 "monthIndex t + int k" "DateFromTime t"]
      DateFromTime_range(1)[of t] by simp
qed

subsection \<open>Days of the week\<close>

lemma Day_add_days: "Day (t + k * msPerDay) = Day t + k"
  by (simp add: Day_def msPerDay_def)

lemma TimeWithinDay_add_days: "TimeWithinDay (t + k * msPerDay) = TimeWithinDay t"
  by (simp add: TimeWithinDay_def msPerDay_def)

lemma WeekDay_add_days: "WeekDay (t + k * msPerDay) = (WeekDay t + k) mod 7"
proof -
  have "Day t + k + 4 = (Day t + 4) + k" by linarith
  then have "(Day t + k + 4) mod 7 = ((Day t + 4) + k) mod 7" by (simp only:)
  also have "\<dots> = ((Day t + 4) mod 7 + k) mod 7" by (simp add: mod_add_left_eq)
  finally show ?thesis by (simp add: WeekDay_def Day_add_days)
qed

subsection \<open>The methods of Date within the range of time values\<close>

lemma Day_times: "Day t * msPerDay \<le> t" "t < Day t * msPerDay + msPerDay"
  using div_bounds[of msPerDay t] by (simp_all add: Day_def msPerDay_def mult.commute)

lemma TimeClip_near:
  assumes "clock_in_range now" "Day now - 100 \<le> d" "d \<le> Day now + 300" "0 \<le> tm" "tm < msPerDay"
  shows "TimeClip (MakeDate d tm) = TimeValue (MakeDate d tm)"
proof -
  have n: "0 \<le> now" "now + 366 * msPerDay \<le> 8640000000000000"
    using assms(1) by (simp_all add: clock_in_range_def)
  have p: "(0::int) < msPerDay" by (simp add: msPerDay_def)
  have "0 \<le> Day now" using n(1) by (simp add: Day_def msPerDay_def pos_imp_zdiv_nonneg_iff)
  then have "- 100 \<le> d" using assms(2) by simp
  then have "(- 100) * msPerDay \<le> d * msPerDay" using p by (intro mult_right_mono) simp_all
  then have lo: "- 100 * msPerDay \<le> MakeDate d tm" using assms(4) by (simp add: MakeDate_def)
  have "d * msPerDay \<le> (Day now + 300) * msPerDay" using assms(3) p by simp
  also have "\<dots> = Day now * msPerDay + 300 * msPerDay" by (simp add: distrib_right)
  also have "\<dots> \<le> now + 300 * msPerDay" using Day_times(1)[of now] by simp
  finally have "MakeDate d tm \<le> now + 300 * msPerDay + msPerDay"
    using assms(5) by (simp add: MakeDate_def)
  then have hi: "MakeDate d tm \<le> 8640000000000000" using n(2) by (simp add: msPerDay_def)
  show ?thesis using lo hi by (simp add: TimeClip_def msPerDay_def)
qed

lemma setDate_plus:
  assumes "clock_in_range now" "Day now \<le> Day t + k" "Day t + k \<le> Day now + 300"
  shows "setDate (TimeValue t) (num_add (getDate (TimeValue t)) k) = TimeValue (t + k * msPerDay)"
proof -
  have "MakeDay (YearFromTime t) (MonthFromTime t) (DateFromTime t + k) = Day t + k"
    using MakeDay_date[of "YearFromTime t" "MonthFromTime t" "DateFromTime t" k] MakeDay_fields[of t]
    by simp
  moreover have "MakeDate (Day t + k) (TimeWithinDay t) = t + k * msPerDay"
    using MakeDate_Day[of t] by (simp add: MakeDate_def distrib_right)
  moreover have "TimeClip (MakeDate (Day t + k) (TimeWithinDay t))
      = TimeValue (MakeDate (Day t + k) (TimeWithinDay t))"
    using assms(2,3) TimeWithinDay_range[of t] by (intro TimeClip_near[OF assms(1)]) simp_all
  ultimately show ?thesis by (simp add: setDate_def getDate_def num_add_def)
qed

lemma setMonth_plus:
  assumes "clock_in_range now" "Day now \<le> Day t" "Day t \<le> Day now + 200" "k \<le> 3"
  shows "setMonth (TimeValue t) (num_add (getMonth (TimeValue t)) (int k))
    = TimeValue (MakeDate (MakeDay (YearFromTime t) (MonthFromTime t + int k) (DateFromTime t))
                          (TimeWithinDay t))"
proof -
  have "Day now \<le> MakeDay (YearFromTime t) (MonthFromTime t + int k) (DateFromTime t)"
    using MakeDay_months_later(1)[of t k] assms(2) by simp
  moreover have "MakeDay (YearFromTime t) (MonthFromTime t + int k) (DateFromTime t) \<le> Day now + 300"
    using MakeDay_months_later(2)[of t k] assms(3,4) by simp
  ultimately have "TimeClip (MakeDate (MakeDay (YearFromTime t) (MonthFromTime t + int k) (DateFromTime t))
                          (TimeWithinDay t))
      = TimeValue (MakeDate (MakeDay (YearFromTime t) (MonthFromTime t + int k) (DateFromTime t))
                          (TimeWithinDay t))"
    using TimeWithinDay_range[of t] by (intro TimeClip_near[OF assms(1)]) simp_all
  then show ?thesis by (simp add: setMonth_def getMonth_def num_add_def)
qed

subsection \<open>The search for the day of the week\<close>

lemma mod7_small:
  assumes "(x::int) mod 7 = 0" "- 7 < x" "x < 7"
  shows "x = 0"
proof -
  have "x = 7 * (x div 7)" using assms(1) by (simp add: mod_eq_0_iff_dvd)
  then obtain q where "x = 7 * q" ..
  with assms(2,3) show ?thesis by simp
qed

lemma seek_weekday_found: "WeekDay t = dow \<Longrightarrow> seek_weekday dow (TimeValue t) = Some (TimeValue t)"
  using seek_weekday.simps[of dow "TimeValue t"] by (simp add: getDay_def)

lemma seek_weekday_next:
  assumes "WeekDay t \<noteq> dow" "clock_in_range now" "Day now \<le> Day t + 1" "Day t + 1 \<le> Day now + 300"
  shows "seek_weekday dow (TimeValue t) = seek_weekday dow (TimeValue (t + msPerDay))"
proof -
  have "setDate (TimeValue t) (num_add (getDate (TimeValue t)) 1) = TimeValue (t + 1 * msPerDay)"
    using assms(3,4) by (rule setDate_plus[OF assms(2)])
  then show ?thesis using seek_weekday.simps[of dow "TimeValue t"] assms(1) by (simp add: getDay_def)
qed
lemma weekday_distance_next:
  assumes "(dow - WeekDay t) mod 7 = int (Suc n)"
  shows "(dow - WeekDay (t + msPerDay)) mod 7 = int n"
proof -
  have b: "int n + 1 < 7"
  proof -
    have "(dow - WeekDay t) mod 7 < 7" by simp
    with assms show ?thesis by simp
  qed
  have e: "WeekDay (t + msPerDay) = (WeekDay t + 1) mod 7"
    using WeekDay_add_days[of t 1] by simp
  have "(dow - (WeekDay t + 1) mod 7) mod 7 = (dow - (WeekDay t + 1)) mod 7"
    by (rule mod_diff_right_eq)
  also have "dow - (WeekDay t + 1) = (dow - WeekDay t) - 1" by simp
  also have "((dow - WeekDay t) - 1) mod 7 = ((dow - WeekDay t) mod 7 - 1) mod 7"
    by (rule mod_diff_left_eq[symmetric])
  also have "(dow - WeekDay t) mod 7 - 1 = int n" using assms by simp
  also have "int n mod 7 = int n" using b by simp
  finally show ?thesis unfolding e .
qed
lemma seek_weekday_steps:
  assumes "clock_in_range now" "0 \<le> dow" "dow \<le> 6"
  shows "(dow - WeekDay t) mod 7 = int n \<Longrightarrow> Day now \<le> Day t \<Longrightarrow> Day t + int n \<le> Day now + 300
    \<Longrightarrow> seek_weekday dow (TimeValue t) = Some (TimeValue (t + int n * msPerDay))"
proof (induction n arbitrary: t)
  case 0
  have "(dow - WeekDay t) mod 7 = 0" using 0(1) by simp
  moreover have "- 7 < dow - WeekDay t" "dow - WeekDay t < 7"
    using assms(2,3) WeekDay_range[of t] by simp_all
  ultimately have "dow - WeekDay t = 0" by (rule mod7_small)
  then have "WeekDay t = dow" by simp
  then show ?case by (simp add: seek_weekday_found)
next
  case (Suc n)
  have ne: "WeekDay t \<noteq> dow"
  proof
    assume "WeekDay t = dow"
    then have "(dow - WeekDay t) mod 7 = 0" by simp
    with Suc(2) show False by simp
  qed
  have w: "(dow - WeekDay (t + msPerDay)) mod 7 = int n"
    using Suc(2) by (rule weekday_distance_next)
  have d: "Day (t + msPerDay) = Day t + 1" using Day_add_days[of t 1] by simp
  have "seek_weekday dow (TimeValue (t + msPerDay)) = Some (TimeValue (t + msPerDay + int n * msPerDay))"
  proof (rule Suc.IH[OF w])
    show "Day now \<le> Day (t + msPerDay)" using Suc(3) by (simp add: d)
    show "Day (t + msPerDay) + int n \<le> Day now + 300" using Suc(4) by (simp add: d)
  qed
  moreover have "seek_weekday dow (TimeValue t) = seek_weekday dow (TimeValue (t + msPerDay))"
  proof (rule seek_weekday_next[OF ne assms(1)])
    show "Day now \<le> Day t + 1" using Suc(3) by simp
    show "Day t + 1 \<le> Day now + 300" using Suc(4) by simp
  qed
  moreover have "t + msPerDay + int n * msPerDay = t + int (Suc n) * msPerDay"
    by (simp add: distrib_right)
  ultimately show ?case by simp
qed

subsection \<open>The day of the month\<close>

lemma Day_nonneg: "0 \<le> t \<Longrightarrow> 0 \<le> Day t"
  by (simp add: Day_def msPerDay_def pos_imp_zdiv_nonneg_iff)

lemma nonneg_of_Day: "0 \<le> Day t \<Longrightarrow> 0 \<le> t"
  using Day_times(2)[of t] by (cases "0 \<le> t") (simp_all add: Day_def msPerDay_def  pos_imp_zdiv_nonneg_iff)

lemma YearFromTime_ge_1970: "0 \<le> t \<Longrightarrow> 1970 \<le> YearFromTime t"
  using YearFromTime_largest[of t] by (simp add: TimeFromYear_def DayFromYear_def)

lemma DaysInMonth_of_time:
  "28 \<le> DaysInMonth y (MonthFromTime t)" "DaysInMonth y (MonthFromTime t) \<le> 31"
  using DaysInMonth_range[OF MonthFromTime_range] by simp_all

lemma MakeDay_end_of_month:
  "MakeDay (YearFromTime t) (MonthFromTime t + 1) 0
    = MakeDay (YearFromTime t) (MonthFromTime t) (DaysInMonth (YearFromTime t) (MonthFromTime t))"
proof -
  define dim where "dim = DaysInMonth (YearFromTime t) (MonthFromTime t)"
  have "MakeDay (YearFromTime t) (MonthFromTime t + 1) 0 = MakeDay 0 (monthIndex t + 1) 0"
    using MakeDay_index[of "YearFromTime t" "MonthFromTime t + 1" 0]
    by (simp add: monthIndex_def add.assoc)
  also have "\<dots> = MakeDay 0 (monthIndex t) 0 + dim"
    using MakeDay_next_month[of "monthIndex t" 0] by (simp add: monthIndex_div_mod dim_def)
  also have "\<dots> = MakeDay 0 (monthIndex t) dim"
    using MakeDay_date[of 0 "monthIndex t" 0 dim] by simp
  also have "\<dots> = MakeDay (YearFromTime t) (MonthFromTime t) dim"
    using MakeDay_index[of "YearFromTime t" "MonthFromTime t" dim] by (simp add: monthIndex_def)
  finally show ?thesis by (simp add: dim_def)
qed

lemma MakeDay_in_month:
  assumes "1 \<le> d" "d \<le> DaysInMonth (YearFromTime t) (MonthFromTime t)"
  shows "MakeDay 0 (monthIndex t) 1 \<le> MakeDay (YearFromTime t) (MonthFromTime t) d"
    "MakeDay (YearFromTime t) (MonthFromTime t) d < MakeDay 0 (monthIndex t + 1) 1"
    "Day t - 30 \<le> MakeDay (YearFromTime t) (MonthFromTime t) d"
    "MakeDay (YearFromTime t) (MonthFromTime t) d \<le> Day t + 30"
proof -
  define dim where "dim = DaysInMonth (YearFromTime t) (MonthFromTime t)"
  define F where "F = MakeDay 0 (monthIndex t) 1"
  have e: "MakeDay (YearFromTime t) (MonthFromTime t) d = F + d - 1"
    using MakeDay_index[of "YearFromTime t" "MonthFromTime t" d]
      MakeDay_shift[of 0 "monthIndex t" d] by (simp add: monthIndex_def F_def)
  have n: "MakeDay 0 (monthIndex t + 1) 1 = F + dim"
    using MakeDay_next_month[of "monthIndex t" 1] by (simp add: monthIndex_div_mod dim_def F_def)
  have dt: "Day t = F + DateFromTime t - 1"
    using Day_as_MakeDay[of t] MakeDay_shift[of 0 "monthIndex t" "DateFromTime t"] by (simp add: F_def)
  have r: "1 \<le> DateFromTime t" "DateFromTime t \<le> dim" "dim \<le> 31"
    using DateFromTime_range[of t] DaysInMonth_of_time(2)[of "YearFromTime t" t]
    by (simp_all add: dim_def)
  show "MakeDay 0 (monthIndex t) 1 \<le> MakeDay (YearFromTime t) (MonthFromTime t) d"
    using e assms(1) by (simp add: F_def)
  show "MakeDay (YearFromTime t) (MonthFromTime t) d < MakeDay 0 (monthIndex t + 1) 1"
    using e n assms(2) by (simp add: dim_def)
  show "Day t - 30 \<le> MakeDay (YearFromTime t) (MonthFromTime t) d"
    using e dt r assms(1) by simp
  show "MakeDay (YearFromTime t) (MonthFromTime t) d \<le> Day t + 30"
    using e dt r assms(2) by (simp add: dim_def)
qed

lemma maxDay_value:
  assumes "clock_in_range now" "Day now \<le> Day t" "Day t \<le> Day now + 200"
  shows "getDate (new_Date (getFullYear (TimeValue t)) (num_add (getMonth (TimeValue t)) 1) (Some 0))
    = Some (DaysInMonth (YearFromTime t) (MonthFromTime t))"
proof -
  define dim where "dim = DaysInMonth (YearFromTime t) (MonthFromTime t)"
  define u where "u = MakeDate (MakeDay (YearFromTime t) (MonthFromTime t) dim) 0"
  have dr: "1 \<le> dim" "dim \<le> dim"
    using DaysInMonth_of_time(1)[of "YearFromTime t" t] by (simp_all add: dim_def)
  have "0 \<le> now" using assms(1) by (simp add: clock_in_range_def)
  then have "0 \<le> Day t" using Day_nonneg[of now] assms(2) by simp
  then have "0 \<le> t" by (rule nonneg_of_Day)
  then have "1970 \<le> YearFromTime t" by (rule YearFromTime_ge_1970)
  then have y: "MakeFullYear (YearFromTime t) = YearFromTime t" by (simp add: MakeFullYear_def)
  have b: "Day t - 30 \<le> MakeDay (YearFromTime t) (MonthFromTime t) dim"
    "MakeDay (YearFromTime t) (MonthFromTime t) dim \<le> Day t + 30"
    using MakeDay_in_month(3,4)[of dim t] dr by (simp_all add: dim_def)
  have c: "TimeClip u = TimeValue u"
    unfolding u_def using b assms(2,3) by (intro TimeClip_near[OF assms(1)]) (simp_all add: msPerDay_def)
  have n: "new_Date (getFullYear (TimeValue t)) (num_add (getMonth (TimeValue t)) 1) (Some 0) = TimeValue u"
    using c MakeDay_end_of_month[of t]
    by (simp add: new_Date_def getFullYear_def getMonth_def num_add_def y MakeTime_def u_def dim_def)
  have "Day u = MakeDay (YearFromTime t) (MonthFromTime t) dim"
    unfolding u_def by (rule Day_MakeDate) (simp_all add: msPerDay_def)
  then have "DateFromTime u = dim"
    using dr by (intro fields_of_MakeDay(3)[OF MonthFromTime_range]) (simp_all add: dim_def)
  then show ?thesis by (simp add: n getDate_def dim_def)
qed

lemma adjust_dayOfMonth_clamps:
  assumes "clock_in_range now" "Day now \<le> Day t" "Day t \<le> Day now + 200"
    and "dayOfMonth r = Some dm" "1 \<le> dm"
    and "frequency r = ''monthly'' \<or> frequency r = ''quarterly''"
  shows "adjust_dayOfMonth r (TimeValue t)
    = TimeValue (MakeDate (MakeDay (YearFromTime t) (MonthFromTime t)
                            (min dm (DaysInMonth (YearFromTime t) (MonthFromTime t))))
                          (TimeWithinDay t))"
proof -
  define dd where "dd = min dm (DaysInMonth (YearFromTime t) (MonthFromTime t))"
  have dr: "1 \<le> dd" "dd \<le> DaysInMonth (YearFromTime t) (MonthFromTime t)"
    using assms(5) DaysInMonth_of_time(1)[of "YearFromTime t" t]
    by (simp_all add: dd_def)
  have b: "Day t - 30 \<le> MakeDay (YearFromTime t) (MonthFromTime t) dd"
    "MakeDay (YearFromTime t) (MonthFromTime t) dd \<le> Day t + 30"
    using MakeDay_in_month(3,4)[OF dr] by simp_all
  have c: "TimeClip (MakeDate (MakeDay (YearFromTime t) (MonthFromTime t) dd) (TimeWithinDay t))
      = TimeValue (MakeDate (MakeDay (YearFromTime t) (MonthFromTime t) dd) (TimeWithinDay t))"
    using b assms(2,3) TimeWithinDay_range[of t] by (intro TimeClip_near[OF assms(1)]) simp_all
  have f: "frequency r \<in> set [''monthly'', ''quarterly'']" using assms(6) by auto
  have z: "dm \<noteq> 0" using assms(5) by simp
  show ?thesis
    unfolding adjust_dayOfMonth_def assms(4) Let_def maxDay_value[OF assms(1,2,3)]
    using c f z by (simp add: Math_min_def setDate_def dd_def)
qed

subsection \<open>The time of day\<close>

lemma digit_Some: "digit c = Some v \<Longrightarrow> 0 \<le> v \<and> v \<le> 9 \<and> c \<noteq> CHR '':''"
  by (auto simp: digit_def split: if_splits)

lemma split_HHMM:
  assumes "a \<noteq> CHR '':''" "b \<noteq> CHR '':''" "d \<noteq> CHR '':''" "e \<noteq> CHR '':''"
  shows "split CHR '':'' [a, b, CHR '':'', d, e] = [[a, b], [d, e]]"
  using assms by simp

lemma Number_two_digits:
  assumes "digit a = Some x" "digit b = Some y"
  shows "Number [a, b] = Some (10 * x + y)"
  using assms by (simp add: Number_def)

lemma valid_timeOfDay_parse:
  assumes "valid_timeOfDay s"
  shows "\<exists>h m. map Number (split CHR '':'' s) = [Some h, Some m] \<and> 0 \<le> h \<and> h \<le> 23 \<and> 0 \<le> m \<and> m \<le> 59 \<and> s \<noteq> []"
proof -
  from assms obtain a b d e h1 h2 m1 m2 where
    s: "s = [a, b, CHR '':'', d, e]" and
    dg: "digit a = Some h1" "digit b = Some h2" "digit d = Some m1" "digit e = Some m2" and
    r: "10 * h1 + h2 \<le> 23" "10 * m1 + m2 \<le> 59"
    unfolding valid_timeOfDay_def by (auto split: list.splits option.splits)
  have p: "map Number (split CHR '':'' s) = [Some (10 * h1 + h2), Some (10 * m1 + m2)]"
    unfolding s using split_HHMM[of a b d e] digit_Some[OF dg(1)] digit_Some[OF dg(2)]
      digit_Some[OF dg(3)] digit_Some[OF dg(4)] Number_two_digits[OF dg(1,2)] Number_two_digits[OF dg(3,4)]
    by simp
  have "0 \<le> 10 * h1 + h2" "0 \<le> 10 * m1 + m2"
    using digit_Some[OF dg(1)] digit_Some[OF dg(2)] digit_Some[OF dg(3)] digit_Some[OF dg(4)] by simp_all
  then show ?thesis using p r s
    by (intro exI[of _ "10 * h1 + h2"] exI[of _ "10 * m1 + m2"]) simp
qed

lemma apply_timeOfDay_sets:
  assumes "clock_in_range now" "Day now - 100 \<le> Day t" "Day t \<le> Day now + 300"
    and "timeOfDay r = Some s" "valid_timeOfDay s"
  shows "\<exists>h m. 0 \<le> h \<and> h \<le> 23 \<and> 0 \<le> m \<and> m \<le> 59 \<and>
    map Number (split CHR '':'' s) = [Some h, Some m] \<and>
    apply_timeOfDay r (TimeValue t) = TimeValue (MakeDate (Day t) (MakeTime h m 0 0))"
proof -
  from valid_timeOfDay_parse[OF assms(5)] obtain h m where
    p: "map Number (split CHR '':'' s) = [Some h, Some m]" and
    r: "0 \<le> h" "h \<le> 23" "0 \<le> m" "m \<le> 59" and ne: "s \<noteq> []" by (elim exE conjE)
  have "0 \<le> h * msPerHour" "h * msPerHour \<le> 23 * msPerHour"
    "0 \<le> m * msPerMinute" "m * msPerMinute \<le> 59 * msPerMinute"
    using r by (simp_all add: msPerHour_def msPerMinute_def)
  then have tm: "0 \<le> MakeTime h m 0 0" "MakeTime h m 0 0 < msPerDay"
    by (simp_all add: MakeTime_def msPerDay_def msPerHour_def msPerMinute_def)
  have c: "TimeClip (MakeDate (Day t) (MakeTime h m 0 0)) = TimeValue (MakeDate (Day t) (MakeTime h m 0 0))"
    using assms(2,3) tm by (intro TimeClip_near[OF assms(1)]) simp_all
  have e: "element (map Number (split CHR '':'' s)) 0 = Some h"
    "element (map Number (split CHR '':'' s)) (Suc 0) = Some m"
    unfolding p by (simp_all add: element_def)
  have "apply_timeOfDay r (TimeValue t) = TimeValue (MakeDate (Day t) (MakeTime h m 0 0))"
    by (simp add: apply_timeOfDay_def assms(4) Let_def ne e setHours_def c)
  then show ?thesis using p r by (intro exI[of _ h] exI[of _ m]) simp
qed

subsection \<open>The base interval\<close>

lemma advance_interval_days:
  assumes "clock_in_range now"
    and "f = ''daily'' \<and> k = 1 \<or> f = ''weekly'' \<and> k = 7 \<or> f = ''biweekly'' \<and> k = 14"
  shows "advance_interval f (TimeValue now) = TimeValue (now + k * msPerDay)"
proof -
  have k: "Day now \<le> Day now + k" "Day now + k \<le> Day now + 300" using assms(2) by auto
  have "setDate (TimeValue now) (num_add (getDate (TimeValue now)) k) = TimeValue (now + k * msPerDay)"
    using k by (rule setDate_plus[OF assms(1)])
  then show ?thesis using assms(2) by (auto simp: advance_interval_def)
qed

lemma advance_interval_months:
  assumes "clock_in_range now" and "f \<noteq> ''daily''" "f \<noteq> ''weekly''" "f \<noteq> ''biweekly''"
  shows "advance_interval f (TimeValue now)
    = TimeValue (MakeDate (MakeDay (YearFromTime now) (MonthFromTime now + int (months_of f))
                                   (DateFromTime now)) (TimeWithinDay now))"
proof -
  have "setMonth (TimeValue now) (num_add (getMonth (TimeValue now)) (int (months_of f)))
    = TimeValue (MakeDate (MakeDay (YearFromTime now) (MonthFromTime now + int (months_of f))
                                   (DateFromTime now)) (TimeWithinDay now))"
    by (rule setMonth_plus[OF assms(1)]) (simp_all add: months_of_def)
  then show ?thesis using assms(2,3,4)
    by (cases "f = ''quarterly''") (simp_all add: advance_interval_def months_of_def)
qed

lemma advance_interval_later:
  assumes "clock_in_range now"
  shows "\<exists>t. advance_interval f (TimeValue now) = TimeValue t \<and>
    Day now + 1 \<le> Day t \<and> Day t \<le> Day now + 93 \<and>
    (f \<noteq> ''daily'' \<and> f \<noteq> ''weekly'' \<and> f \<noteq> ''biweekly''
       \<longrightarrow> MakeDay 0 (monthIndex now + 1) 1 \<le> Day t)"
proof (cases "f = ''daily'' \<or> f = ''weekly'' \<or> f = ''biweekly''")
  case True
  then obtain k :: int where k: "f = ''daily'' \<and> k = 1 \<or> f = ''weekly'' \<and> k = 7 \<or> f = ''biweekly'' \<and> k = 14"
    by auto
  then have r: "1 \<le> k" "k \<le> 14" by auto
  have "advance_interval f (TimeValue now) = TimeValue (now + k * msPerDay)"
    using assms k by (rule advance_interval_days)
  then show ?thesis using True r by (auto simp: Day_add_days)
next
  case False
  define d where "d = MakeDay (YearFromTime now) (MonthFromTime now + int (months_of f)) (DateFromTime now)"
  define t where "t = MakeDate d (TimeWithinDay now)"
  have a: "advance_interval f (TimeValue now) = TimeValue t"
    unfolding t_def d_def using False by (intro advance_interval_months[OF assms]) simp_all
  have m: "1 \<le> months_of f" "months_of f \<le> 3" by (simp_all add: months_of_def)
  have dt: "Day t = d" unfolding t_def using TimeWithinDay_range[of now] by (intro Day_MakeDate) simp_all
  have lo: "Day now + 28 * int (months_of f) \<le> d" and hi: "d \<le> Day now + 31 * int (months_of f)"
    and fm: "MakeDay 0 (monthIndex now + int (months_of f)) 1 \<le> d"
    unfolding d_def using MakeDay_months_later[of now "months_of f"] by simp_all
  have "MakeDay 0 (monthIndex now + 1) 1 \<le> MakeDay 0 (monthIndex now + int (months_of f)) 1"
    using m by (intro MakeDay_index_le) simp
  then have "MakeDay 0 (monthIndex now + 1) 1 \<le> Day t" using fm dt by simp
  moreover have "Day now + 1 \<le> Day t" "Day t \<le> Day now + 93" using lo hi m dt by simp_all
  ultimately show ?thesis using a by simp
qed

subsection \<open>The day of the week\<close>

lemma seek_weekday_result:
  assumes "clock_in_range now" "0 \<le> dow" "dow \<le> 6" "Day now \<le> Day t" "Day t \<le> Day now + 200"
  shows "seek_weekday dow (TimeValue t) = Some (TimeValue (t + ((dow - WeekDay t) mod 7) * msPerDay))"
proof -
  define n where "n = nat ((dow - WeekDay t) mod 7)"
  have n: "(dow - WeekDay t) mod 7 = int n" by (simp add: n_def)
  have "(dow - WeekDay t) mod 7 < 7" by simp
  then have "int n \<le> 6" using n by simp
  then have "Day t + int n \<le> Day now + 300" using assms(5) by simp
  with n assms(4) have "seek_weekday dow (TimeValue t) = Some (TimeValue (t + int n * msPerDay))"
    by (rule seek_weekday_steps[OF assms(1,2,3)])
  then show ?thesis by (simp add: n)
qed

lemma adjust_dayOfWeek_later:
  assumes "clock_in_range now" "valid_dayOfWeek r" "Day now \<le> Day t" "Day t \<le> Day now + 200"
  shows "\<exists>k. 0 \<le> k \<and> k \<le> 6 \<and> adjust_dayOfWeek r (TimeValue t) = Some (TimeValue (t + k * msPerDay))"
proof (cases "dayOfWeek r")
  case None
  then have "adjust_dayOfWeek r (TimeValue t) = Some (TimeValue (t + 0 * msPerDay))"
    by (simp add: adjust_dayOfWeek_def)
  then show ?thesis by (intro exI[of _ 0]) simp
next
  case (Some dow)
  then have w: "0 \<le> dow" "dow \<le> 6" using assms(2) by (simp_all add: valid_dayOfWeek_def)
  show ?thesis
  proof (cases "frequency r = ''daily''")
    case True
    then have "adjust_dayOfWeek r (TimeValue t) = Some (TimeValue (t + 0 * msPerDay))"
      using Some by (simp add: adjust_dayOfWeek_def)
    then show ?thesis by (intro exI[of _ 0]) simp
  next
    case False
    have "adjust_dayOfWeek r (TimeValue t)
      = Some (TimeValue (t + ((dow - WeekDay t) mod 7) * msPerDay))"
      using Some False seek_weekday_result[OF assms(1) w assms(3,4)]
      by (simp add: adjust_dayOfWeek_def)
    moreover have "0 \<le> (dow - WeekDay t) mod 7" "(dow - WeekDay t) mod 7 \<le> 6"
      by simp_all
    ultimately show ?thesis by (intro exI[of _ "(dow - WeekDay t) mod 7"]) simp
  qed
qed

lemma seek_weekday_lands:
  assumes "0 \<le> dow" "dow \<le> 6"
  shows "WeekDay (t + ((dow - WeekDay t) mod 7) * msPerDay) = dow"
proof -
  have "(WeekDay t + (dow - WeekDay t) mod 7) mod 7 = (WeekDay t + (dow - WeekDay t)) mod 7"
    by (rule mod_add_right_eq)
  also have "WeekDay t + (dow - WeekDay t) = dow" by simp
  also have "dow mod 7 = dow" using assms by simp
  finally show ?thesis by (simp add: WeekDay_add_days)
qed

lemma seek_weekday_first:
  assumes "0 \<le> j" "j < (dow - WeekDay t) mod 7"
  shows "WeekDay (t + j * msPerDay) \<noteq> dow"
proof
  assume a: "WeekDay (t + j * msPerDay) = dow"
  have "(dow - WeekDay t) mod 7 < 7" by simp
  then have j: "j mod 7 = j" using assms by simp
  have "(dow - WeekDay t) mod 7 = ((WeekDay t + j) mod 7 - WeekDay t) mod 7"
    using a by (simp add: WeekDay_add_days)
  also have "\<dots> = ((WeekDay t + j) - WeekDay t) mod 7" by (rule mod_diff_left_eq)
  also have "(WeekDay t + j) - WeekDay t = j" by simp
  finally show False using assms(2) j by simp
qed

lemma Day_later_imp_later:
  assumes "Day now + 1 \<le> Day t"
  shows "now < t"
proof -
  have "(Day now + 1) * msPerDay \<le> Day t * msPerDay" using assms by (simp add: msPerDay_def)
  then have "Day now * msPerDay + msPerDay \<le> Day t * msPerDay" by (simp add: distrib_right)
  then show ?thesis using Day_times(2)[of now] Day_times(1)[of t] by simp
qed

lemma adjust_dayOfMonth_later:
  assumes "clock_in_range now" "valid_rule r" "Day now + 1 \<le> Day t" "Day t \<le> Day now + 99"
    and "frequency r \<noteq> ''daily'' \<and> frequency r \<noteq> ''weekly'' \<and> frequency r \<noteq> ''biweekly''
          \<longrightarrow> MakeDay 0 (monthIndex now + 1) 1 \<le> Day t"
  shows "\<exists>u. adjust_dayOfMonth r (TimeValue t) = TimeValue u \<and> Day now + 1 \<le> Day u \<and> Day u \<le> Day now + 129"
proof (cases "\<exists>dm. dayOfMonth r = Some dm \<and> dm \<noteq> 0 \<and> (frequency r = ''monthly'' \<or> frequency r = ''quarterly'')")
  case False
  then have "adjust_dayOfMonth r (TimeValue t) = TimeValue t"
    by (auto simp: adjust_dayOfMonth_def split: option.splits)
  then show ?thesis using assms(3,4) by simp
next
  case True
  then obtain dm where dm: "dayOfMonth r = Some dm" and
    f: "frequency r = ''monthly'' \<or> frequency r = ''quarterly''" by blast
  have d1: "1 \<le> dm" using assms(2) dm by (simp add: valid_rule_def)
  define dd where "dd = min dm (DaysInMonth (YearFromTime t) (MonthFromTime t))"
  define u where "u = MakeDate (MakeDay (YearFromTime t) (MonthFromTime t) dd) (TimeWithinDay t)"
  have a: "adjust_dayOfMonth r (TimeValue t) = TimeValue u"
    unfolding u_def dd_def using assms(3,4) by (intro adjust_dayOfMonth_clamps[OF assms(1) _ _ dm d1 f]) simp_all
  have dr: "1 \<le> dd" "dd \<le> DaysInMonth (YearFromTime t) (MonthFromTime t)"
    using d1 DaysInMonth_of_time(1)[of "YearFromTime t" t] by (simp_all add: dd_def)
  have du: "Day u = MakeDay (YearFromTime t) (MonthFromTime t) dd"
    unfolding u_def using TimeWithinDay_range[of t] by (intro Day_MakeDate) simp_all
  have "MakeDay 0 (monthIndex now + 1) 1 \<le> Day t" using assms(5) f by auto
  then have "MakeDay 0 (monthIndex now + 1) 1 < MakeDay 0 (monthIndex t + 1) 1"
    using month_span(2)[of t] by simp
  then have "monthIndex now + 1 < monthIndex t + 1" by (rule MakeDay_index_reflect)
  then have "MakeDay 0 (monthIndex now + 1) 1 \<le> MakeDay 0 (monthIndex t) 1"
    by (intro MakeDay_index_le) simp
  then have "Day now + 1 \<le> Day u"
    using month_span(2)[of now] MakeDay_in_month(1)[OF dr] du by simp
  moreover have "Day u \<le> Day now + 129" using MakeDay_in_month(4)[OF dr] du assms(4) by simp
  ultimately show ?thesis using a by simp
qed

lemma apply_timeOfDay_later:
  assumes "clock_in_range now" "valid_rule r" "Day now - 100 \<le> Day t" "Day t \<le> Day now + 300"
  shows "\<exists>u. apply_timeOfDay r (TimeValue t) = TimeValue u \<and> Day u = Day t"
proof (cases "timeOfDay r")
  case None
  then show ?thesis by (simp add: apply_timeOfDay_def)
next
  case (Some s)
  then have v: "valid_timeOfDay s" using assms(2) by (simp add: valid_rule_def)
  from apply_timeOfDay_sets[OF assms(1,3,4) Some v] obtain h m where
    r: "0 \<le> h" "h \<le> 23" "0 \<le> m" "m \<le> 59" and
    a: "apply_timeOfDay r (TimeValue t) = TimeValue (MakeDate (Day t) (MakeTime h m 0 0))"
    by (elim exE conjE)
  have "0 \<le> h * msPerHour" "h * msPerHour \<le> 23 * msPerHour"
    "0 \<le> m * msPerMinute" "m * msPerMinute \<le> 59 * msPerMinute"
    using r by (simp_all add: msPerHour_def msPerMinute_def)
  then have tm: "0 \<le> MakeTime h m 0 0" "MakeTime h m 0 0 < msPerDay"
    by (simp_all add: MakeTime_def msPerDay_def msPerHour_def msPerMinute_def)
  have "Day (MakeDate (Day t) (MakeTime h m 0 0)) = Day t" using tm by (rule Day_MakeDate)
  then show ?thesis using a by simp
qed

lemma valid_rule_dayOfWeek: "valid_rule r \<Longrightarrow> valid_dayOfWeek r"
  by (simp add: valid_rule_def)

lemma next_date_terminates:
  assumes "valid_dayOfWeek r" "clock_in_range now"
  shows "\<exists>d. next_date r now = Some d"
proof -
  from advance_interval_later[OF assms(2), of "frequency r"] obtain t1 where
    a1: "advance_interval (frequency r) (TimeValue now) = TimeValue t1" and
    b1: "Day now + 1 \<le> Day t1" "Day t1 \<le> Day now + 93"
    by (elim exE conjE)
  have c1: "Day now \<le> Day t1" "Day t1 \<le> Day now + 200" using b1 by simp_all
  from adjust_dayOfWeek_later[OF assms(2,1) c1] obtain k where
    a2: "adjust_dayOfWeek r (TimeValue t1) = Some (TimeValue (t1 + k * msPerDay))"
    by (elim exE conjE)
  show ?thesis by (simp add: next_date_def a1 a2)
qed

lemma next_date_later:
  assumes "valid_rule r" "clock_in_range now"
  shows "\<exists>t. next_date r now = Some (TimeValue t) \<and> now < t"
proof -
  from advance_interval_later[OF assms(2), of "frequency r"] obtain t1 where
    a1: "advance_interval (frequency r) (TimeValue now) = TimeValue t1" and
    b1: "Day now + 1 \<le> Day t1" "Day t1 \<le> Day now + 93" and
    m1: "frequency r \<noteq> ''daily'' \<and> frequency r \<noteq> ''weekly'' \<and> frequency r \<noteq> ''biweekly''
       \<longrightarrow> MakeDay 0 (monthIndex now + 1) 1 \<le> Day t1"
    by (elim exE conjE)
  have c1: "Day now \<le> Day t1" "Day t1 \<le> Day now + 200" using b1 by simp_all
  from adjust_dayOfWeek_later[OF assms(2) valid_rule_dayOfWeek[OF assms(1)] c1] obtain k where
    k: "0 \<le> k" "k \<le> 6" and
    a2: "adjust_dayOfWeek r (TimeValue t1) = Some (TimeValue (t1 + k * msPerDay))"
    by (elim exE conjE)
  define t2 where "t2 = t1 + k * msPerDay"
  have d2: "Day t2 = Day t1 + k" by (simp add: t2_def Day_add_days)
  have b2: "Day now + 1 \<le> Day t2" "Day t2 \<le> Day now + 99" using b1 k d2 by simp_all
  have m2: "frequency r \<noteq> ''daily'' \<and> frequency r \<noteq> ''weekly'' \<and> frequency r \<noteq> ''biweekly''
       \<longrightarrow> MakeDay 0 (monthIndex now + 1) 1 \<le> Day t2" using m1 k d2 by auto
  from adjust_dayOfMonth_later[OF assms(2,1) b2 m2] obtain t3 where
    a3: "adjust_dayOfMonth r (TimeValue t2) = TimeValue t3" and
    b3: "Day now + 1 \<le> Day t3" "Day t3 \<le> Day now + 129"
    by (elim exE conjE)
  have c3: "Day now - 100 \<le> Day t3" "Day t3 \<le> Day now + 300" using b3 by simp_all
  from apply_timeOfDay_later[OF assms(2,1) c3] obtain t4 where
    a4: "apply_timeOfDay r (TimeValue t3) = TimeValue t4" and d4: "Day t4 = Day t3"
    by (elim exE conjE)
  have "next_date r now = Some (TimeValue t4)"
    by (simp add: next_date_def a1 a2 t2_def[symmetric] a3 a4)
  moreover have "now < t4" using b3(1) d4 by (intro Day_later_imp_later) simp
  ultimately show ?thesis by simp
qed

subsection \<open>The fields of a date depend on its day only\<close>

lemma fields_same_day:
  assumes "Day a = Day b"
  shows "YearFromTime a = YearFromTime b" "MonthFromTime a = MonthFromTime b"
    "DateFromTime a = DateFromTime b" "WeekDay a = WeekDay b"
  using assms by (simp_all add: YearFromTime_def MonthFromTime_def InLeapYear_def DateFromTime_def
      DayWithinYear_def WeekDay_def)

lemma adjust_dayOfMonth_fields:
  assumes "clock_in_range now" "Day now \<le> Day w" "Day w \<le> Day now + 200"
    and "dayOfMonth r = Some dm" "1 \<le> dm"
    and "frequency r = ''monthly'' \<or> frequency r = ''quarterly''"
  shows "\<exists>u. adjust_dayOfMonth r (TimeValue w) = TimeValue u \<and>
    YearFromTime u = YearFromTime w \<and> MonthFromTime u = MonthFromTime w \<and>
    DateFromTime u = min dm (DaysInMonth (YearFromTime w) (MonthFromTime w)) \<and>
    TimeWithinDay u = TimeWithinDay w \<and> Day w - 30 \<le> Day u \<and> Day u \<le> Day w + 30"
proof -
  define dd where "dd = min dm (DaysInMonth (YearFromTime w) (MonthFromTime w))"
  define u where "u = MakeDate (MakeDay (YearFromTime w) (MonthFromTime w) dd) (TimeWithinDay w)"
  have a: "adjust_dayOfMonth r (TimeValue w) = TimeValue u"
    unfolding u_def dd_def by (rule adjust_dayOfMonth_clamps[OF assms])
  have dr: "1 \<le> dd" "dd \<le> DaysInMonth (YearFromTime w) (MonthFromTime w)"
    using assms(5) DaysInMonth_of_time(1)[of "YearFromTime w" w] by (simp_all add: dd_def)
  have du: "Day u = MakeDay (YearFromTime w) (MonthFromTime w) dd"
    unfolding u_def using TimeWithinDay_range[of w] by (intro Day_MakeDate) simp_all
  have tu: "TimeWithinDay u = TimeWithinDay w"
    unfolding u_def using TimeWithinDay_range[of w] by (intro Day_MakeDate) simp_all
  note f = fields_of_MakeDay[OF MonthFromTime_range dr du]
  have b: "Day w - 30 \<le> Day u" "Day u \<le> Day w + 30"
    using MakeDay_in_month(3,4)[OF dr] du by simp_all
  show ?thesis using a f tu b by (simp add: dd_def)
qed

subsection \<open>Steps of one day\<close>

lemma day_steps:
  assumes "clock_in_range now"
  shows "Day now \<le> Day t \<Longrightarrow> Day t + int n \<le> Day now + 300 \<Longrightarrow>
    ((\<lambda>d. setDate d (num_add (getDate d) 1)) ^^ n) (TimeValue t) = TimeValue (t + int n * msPerDay)"
proof (induction n)
  case 0
  show ?case by simp
next
  case (Suc n)
  have i: "((\<lambda>d. setDate d (num_add (getDate d) 1)) ^^ n) (TimeValue t) = TimeValue (t + int n * msPerDay)"
    using Suc.prems by (intro Suc.IH) simp_all
  have d: "Day (t + int n * msPerDay) = Day t + int n" by (rule Day_add_days)
  have "setDate (TimeValue (t + int n * msPerDay)) (num_add (getDate (TimeValue (t + int n * msPerDay))) 1)
    = TimeValue (t + int n * msPerDay + 1 * msPerDay)"
    using Suc.prems by (intro setDate_plus[OF assms]) (simp_all add: d)
  moreover have "t + int n * msPerDay + 1 * msPerDay = t + int (Suc n) * msPerDay"
    by (simp add: distrib_right)
  ultimately show ?case using i by simp
qed

subsection \<open>The base interval in months when the day exists in the target month\<close>

lemma advance_interval_months_fields:
  assumes "clock_in_range now" and "f \<noteq> ''daily''" "f \<noteq> ''weekly''" "f \<noteq> ''biweekly''"
    and "DateFromTime now \<le> 28"
  shows "\<exists>t. advance_interval f (TimeValue now) = TimeValue t \<and>
    monthIndex t = monthIndex now + int (months_of f) \<and>
    DateFromTime t = DateFromTime now \<and> TimeWithinDay t = TimeWithinDay now"
proof -
  define i where "i = monthIndex now + int (months_of f)"
  define d where "d = MakeDay (YearFromTime now) (MonthFromTime now + int (months_of f)) (DateFromTime now)"
  define t where "t = MakeDate d (TimeWithinDay now)"
  have a: "advance_interval f (TimeValue now) = TimeValue t"
    unfolding t_def d_def by (rule advance_interval_months[OF assms(1,2,3,4)])
  have dt: "Day t = d" and tw: "TimeWithinDay t = TimeWithinDay now"
    unfolding t_def using TimeWithinDay_range[of now] by (simp_all add: Day_MakeDate)
  have "d = MakeDay 0 i (DateFromTime now)"
    unfolding d_def i_def
    using MakeDay_index[of "YearFromTime now" "MonthFromTime now + int (months_of f)" "DateFromTime now"]
    by (simp add: monthIndex_def add.assoc)
  also have "\<dots> = MakeDay (i div 12) (i mod 12) (DateFromTime now)"
    using MakeDay_index[of "i div 12" "i mod 12" "DateFromTime now"] by simp
  finally have e: "Day t = MakeDay (i div 12) (i mod 12) (DateFromTime now)" using dt by simp
  have m: "0 \<le> i mod 12" "i mod 12 \<le> 11" by simp_all
  have r: "1 \<le> DateFromTime now" "DateFromTime now \<le> DaysInMonth (i div 12) (i mod 12)"
    using DateFromTime_range(1)[of now] assms(5) DaysInMonth_range(1)[OF m, of "i div 12"] by simp_all
  note f = fields_of_MakeDay[OF m r e]
  have "monthIndex t = 12 * (i div 12) + i mod 12" by (simp add: monthIndex_def f)
  then have "monthIndex t = i" by simp
  then show ?thesis using a f(3) tw by (simp add: i_def)
qed

subsection \<open>A frequency outside the enumeration\<close>

lemma unrecognized_frequency_without_dayOfMonth:
  assumes "frequency r \<notin> set [''daily'', ''weekly'', ''biweekly'', ''monthly'', ''quarterly'']"
    and "dayOfMonth r = None \<or> dayOfMonth r = Some 0"
  shows "next_date r now = next_date (r\<lparr>frequency := ''monthly''\<rparr>) now"
proof -
  have a: "advance_interval (frequency r) (TimeValue now) = advance_interval ''monthly'' (TimeValue now)"
    using assms(1) by (simp add: advance_interval_def)
  have b: "adjust_dayOfWeek r d = adjust_dayOfWeek (r\<lparr>frequency := ''monthly''\<rparr>) d" for d
    using assms(1) by (simp add: adjust_dayOfWeek_def split: option.splits)
  have c: "adjust_dayOfMonth r d = d" "adjust_dayOfMonth (r\<lparr>frequency := ''monthly''\<rparr>) d = d" for d
    using assms(2) by (auto simp: adjust_dayOfMonth_def)
  have e: "apply_timeOfDay r d = apply_timeOfDay (r\<lparr>frequency := ''monthly''\<rparr>) d" for d
    by (simp add: apply_timeOfDay_def)
  show ?thesis
    unfolding next_date_def a b c by (cases "adjust_dayOfWeek (r\<lparr>frequency := ''monthly''\<rparr>)
        (advance_interval ''monthly'' (TimeValue now))") (simp_all add: c apply_timeOfDay_def)
qed

section \<open>One iteration of the loop\<close>

lemma fresh_id_greater: "d \<in> set store \<Longrightarrow> cid d < fresh_id store"
proof (induction store)
  case Nil
  then show ?case by simp
next
  case (Cons a store)
  then show ?case by (auto simp: fresh_id_def)
qed

lemma fresh_id_new: "fresh_id store \<notin> cid ` set store"
  using fresh_id_greater by fastforce

lemma findByIdAndUpdate_other:
  assumes "i \<notin> cid ` set store"
  shows "findByIdAndUpdate i mid st store = store"
  unfolding findByIdAndUpdate_def using assms by (induction store) auto

lemma findByIdAndUpdate_new:
  assumes "cid n \<notin> cid ` set store"
  shows "findByIdAndUpdate (cid n) mid st (store @ [n])
    = store @ [n\<lparr>mailchimpCampaignId := Some mid, status := st\<rparr>]"
  using findByIdAndUpdate_other[OF assms, of mid st] by (simp add: findByIdAndUpdate_def)

lemma save_append_other:
  assumes "cid n \<noteq> cid c"
  shows "save c (store @ [n]) = save c store @ [n]"
  using assms by (simp add: save_def)

lemma save_mem:
  assumes "c \<in> set store" "cid c' = cid c"
  shows "c' \<in> set (save c' store)"
  using assms by (force simp: save_def)

lemma save_other:
  assumes "d \<in> set store" "cid d \<noteq> cid c"
  shows "d \<in> set (save c store)"
  using assms by (force simp: save_def)

lemma save_ids: "map cid (save c store) = map cid store"
  by (simp add: save_def)

lemma save_set: "d \<in> set (save c store) \<Longrightarrow> d \<in> set store \<or> d = c"
  by (auto simp: save_def split: if_splits)

lemma cid_new_campaign [simp]: "cid (new_campaign fmt store c nd) = fresh_id store"
  by (simp add: new_campaign_def)

lemma createCampaign_fails:
  "create_fails e \<Longrightarrow> createCampaign e store n = (store, Failure ''Error creating campaign in Mailchimp'')"
  by (auto simp: create_fails_def createCampaign_def split: option.splits)

lemma createCampaign_succeeds:
  assumes "\<not> create_fails e"
  shows "\<exists>mid. mc_create e = Some mid \<and>
    createCampaign e store n = (findByIdAndUpdate (cid n) mid scheduled store,
                                Success ''Campaign created in Mailchimp'' mid)"
  using assms by (auto simp: create_fails_def createCampaign_def split: option.splits)

lemma process_campaign_not_due:
  "\<not> is_due (recurring c) (clock e) \<Longrightarrow> process_campaign fmt e store c = Some (store, [])"
  by (simp add: process_campaign_def)

lemma process_campaign_db_create_fails:
  assumes "is_due (recurring c) (clock e)" "next_date (recurring c) (clock_next e) = Some nd"
    and "db_create e = Some err"
  shows "process_campaign fmt e store c = Some (store, [Outcome_failure (name c) err])"
  using assms by (simp add: process_campaign_def)

lemma process_campaign_create_fails:
  assumes "is_due (recurring c) (clock e)" "next_date (recurring c) (clock_next e) = Some nd"
    and "db_create e = None" "create_fails e"
  shows "process_campaign fmt e store c
    = Some (store @ [new_campaign fmt store c nd], [Outcome_failure (name c) (dispatch_error e)])"
  using assms by (simp add: process_campaign_def createCampaign_fails dispatch_error_def)

lemma process_campaign_schedule_fails:
  assumes "is_due (recurring c) (clock e)" "next_date (recurring c) (clock_next e) = Some nd"
    and "db_create e = None" "\<not> create_fails e" "\<not> mc_schedule e \<or> nd = InvalidDate"
  shows "\<exists>mid. mc_create e = Some mid \<and> process_campaign fmt e store c
    = Some (store @ [(new_campaign fmt store c nd)\<lparr>mailchimpCampaignId := Some mid, status := scheduled\<rparr>],
            [Outcome_failure (name c) (dispatch_error e)])"
proof -
  define n where "n = new_campaign fmt store c nd"
  from createCampaign_succeeds[OF assms(4), of "store @ [n]" n] obtain mid where
    m: "mc_create e = Some mid" and
    cr: "createCampaign e (store @ [n]) n
      = (findByIdAndUpdate (cid n) mid scheduled (store @ [n]), Success ''Campaign created in Mailchimp'' mid)"
    by (elim exE conjE)
  have "cid n \<notin> cid ` set store" using fresh_id_new[of store] by (simp add: n_def)
  then have u: "findByIdAndUpdate (cid n) mid scheduled (store @ [n])
      = store @ [n\<lparr>mailchimpCampaignId := Some mid, status := scheduled\<rparr>]"
    by (rule findByIdAndUpdate_new)
  have s: "scheduleCampaign e mid (scheduledFor n) = Failure ''Error scheduling campaign in Mailchimp''"
    using assms(5) by (auto simp: scheduleCampaign_def n_def new_campaign_def split: jsdate.splits)
  have "process_campaign fmt e store c
    = Some (store @ [n\<lparr>mailchimpCampaignId := Some mid, status := scheduled\<rparr>],
            [Outcome_failure (name c) (dispatch_error e)])"
    using assms(1,2,3,4) by (simp add: process_campaign_def n_def[symmetric] cr u s dispatch_error_def)
  then show ?thesis using m by (simp add: n_def)
qed

lemma process_campaign_scheduled:
  assumes "is_due (recurring c) (clock e)" "next_date (recurring c) (clock_next e) = Some (TimeValue t)"
    and "db_create e = None" "\<not> create_fails e" "mc_schedule e" "c \<in> set store"
  shows "\<exists>mid. mc_create e = Some mid \<and> process_campaign fmt e store c
    = (case db_save e of
         Some err \<Rightarrow>
           Some (store @ [(new_campaign fmt store c (TimeValue t))
                            \<lparr>mailchimpCampaignId := Some mid, status := scheduled\<rparr>],
                 [Outcome_failure (name c) err])
       | None \<Rightarrow>
           Some (save (advanced c (clock e) t) store
                   @ [(new_campaign fmt store c (TimeValue t))
                        \<lparr>mailchimpCampaignId := Some mid, status := scheduled\<rparr>],
                 [Outcome_success (name c) (TimeValue t)]))"
proof -
  define n where "n = new_campaign fmt store c (TimeValue t)"
  define n' where "n' mid = n\<lparr>mailchimpCampaignId := Some mid, status := scheduled\<rparr>" for mid
  from createCampaign_succeeds[OF assms(4), of "store @ [n]" n] obtain mid where
    m: "mc_create e = Some mid" and
    cr: "createCampaign e (store @ [n]) n
      = (findByIdAndUpdate (cid n) mid scheduled (store @ [n]), Success ''Campaign created in Mailchimp'' mid)"
    by (elim exE conjE)
  have "cid n \<notin> cid ` set store" using fresh_id_new[of store] by (simp add: n_def)
  then have u: "findByIdAndUpdate (cid n) mid scheduled (store @ [n]) = store @ [n' mid]"
    unfolding n'_def by (rule findByIdAndUpdate_new)
  have s: "scheduleCampaign e mid (scheduledFor n) = Success ''Campaign scheduled in Mailchimp'' ()"
    using assms(5) by (simp add: scheduleCampaign_def n_def new_campaign_def)
  have "cid (n' mid) \<noteq> cid c" using fresh_id_greater[OF assms(6)] by (simp add: n'_def n_def)
  then have sv: "save (advanced c (clock e) t) (store @ [n' mid])
      = save (advanced c (clock e) t) store @ [n' mid]"
    by (intro save_append_other) (simp add: advanced_def)
  have "process_campaign fmt e store c
    = (case db_save e of
         Some err \<Rightarrow> Some (store @ [n' mid], [Outcome_failure (name c) err])
       | None \<Rightarrow> Some (save (advanced c (clock e) t) store @ [n' mid],
                        [Outcome_success (name c) (TimeValue t)]))"
    using assms(1,2,3) sv
    by (simp add: process_campaign_def n_def[symmetric] cr u s stored_date_def advanced_def
        split: option.splits)
  then show ?thesis using m unfolding n'_def n_def by simp
qed

lemma schedule_ordered_new: "schedule_ordered ((new_campaign fmt store c nd)\<lparr>mailchimpCampaignId := x, status := s\<rparr>)"
  "schedule_ordered (new_campaign fmt store c nd)"
  by (simp_all add: schedule_ordered_def new_campaign_def)

lemma schedule_ordered_advanced: "now < t \<Longrightarrow> schedule_ordered (advanced c now t)"
  by (simp add: schedule_ordered_def advanced_def)

lemma distinct_append_fresh:
  assumes "distinct (map cid store)" "cid n = fresh_id store"
  shows "distinct (map cid (store @ [n]))"
  using assms fresh_id_new[of store] by simp

lemma process_campaign_step:
  assumes "distinct (map cid store)" "c \<in> set store" "valid_dayOfWeek (recurring c)"
    and "clocks_in_range e"
  shows "\<exists>store1 pushed. process_campaign fmt e store c = Some (store1, pushed) \<and>
     distinct (map cid store1) \<and>
     (\<forall>d\<in>set store. cid d \<noteq> cid c \<longrightarrow> d \<in> set store1) \<and>
     map outcome_campaign pushed = (if is_due (recurring c) (clock e) then [name c] else []) \<and>
     (\<not> (is_due (recurring c) (clock e) \<and> all_accepted e)
        \<longrightarrow> c \<in> set store1 \<and> (\<forall>x\<in>set pushed. is_failure x)) \<and>
     (is_due (recurring c) (clock e) \<and> dispatch_fails e
        \<longrightarrow> pushed = [Outcome_failure (name c) (dispatch_error e)]) \<and>
     (is_due (recurring c) (clock e) \<and> all_accepted e \<and> valid_rule (recurring c)
        \<longrightarrow> (\<exists>t. next_date (recurring c) (clock_next e) = Some (TimeValue t) \<and> clock e < t \<and>
              pushed = [Outcome_success (name c) (TimeValue t)] \<and>
              advanced c (clock e) t \<in> set store1)) \<and>
     (valid_rule (recurring c) \<and> (\<forall>d\<in>set store. schedule_ordered d)
        \<longrightarrow> (\<forall>d\<in>set store1. schedule_ordered d))"
    (is "\<exists>store1 pushed. ?P store1 pushed")
proof (cases "is_due (recurring c) (clock e)")
  case False
  have "?P store []"
    using False assms(1,2) by (simp add: process_campaign_not_due)
  then show ?thesis by blast
next
  case due: True
  have rng: "clock_in_range (clock_next e)" and le: "clock e \<le> clock_next e"
    using assms(4) by (simp_all add: clocks_in_range_def)
  from next_date_terminates[OF assms(3) rng] obtain nd where
    nd: "next_date (recurring c) (clock_next e) = Some nd" ..
  have valid: "\<exists>t. nd = TimeValue t \<and> clock e < t" if "valid_rule (recurring c)"
    using next_date_later[OF that rng] nd le by auto
  show ?thesis
  proof (cases "db_create e")
    case (Some err)
    have "?P store [Outcome_failure (name c) err]"
      using due assms(1,2) process_campaign_db_create_fails[OF due nd Some, of fmt store] Some
      by (simp add: all_accepted_def dispatch_fails_def)
    then show ?thesis by blast
  next
    case None
    show ?thesis
    proof (cases "create_fails e")
      case True
      define n where "n = new_campaign fmt store c nd"
      have p: "process_campaign fmt e store c
          = Some (store @ [n], [Outcome_failure (name c) (dispatch_error e)])"
        unfolding n_def using due nd None True by (rule process_campaign_create_fails)
      have d: "distinct (map cid (store @ [n]))"
        using assms(1) by (rule distinct_append_fresh) (simp add: n_def)
      have o: "schedule_ordered n" by (simp add: n_def schedule_ordered_new)
      have "?P (store @ [n]) [Outcome_failure (name c) (dispatch_error e)]"
        using due p d o assms(2) True by (auto simp: all_accepted_def)
      then show ?thesis by blast
    next
      case cr: False
      show ?thesis
      proof (cases "\<not> mc_schedule e \<or> nd = InvalidDate")
        case f: True
        from process_campaign_schedule_fails[OF due nd None cr f, of fmt store] obtain mid where
          p: "process_campaign fmt e store c
            = Some (store @ [(new_campaign fmt store c nd)
                      \<lparr>mailchimpCampaignId := Some mid, status := scheduled\<rparr>],
                    [Outcome_failure (name c) (dispatch_error e)])"
          by (elim exE conjE)
        define n where "n = (new_campaign fmt store c nd)
                      \<lparr>mailchimpCampaignId := Some mid, status := scheduled\<rparr>"
        have d: "distinct (map cid (store @ [n]))"
          using assms(1) by (rule distinct_append_fresh) (simp add: n_def)
        have o: "schedule_ordered n" by (simp add: n_def schedule_ordered_new)
        have nv: "\<not> (all_accepted e \<and> valid_rule (recurring c))"
          using f valid by (auto simp: all_accepted_def)
        have "?P (store @ [n]) [Outcome_failure (name c) (dispatch_error e)]"
          using due p d o assms(2) nv unfolding n_def[symmetric] by auto
        then show ?thesis by blast
      next
        case False
        then have sch: "mc_schedule e" and "nd \<noteq> InvalidDate" by simp_all
        then obtain t where t: "nd = TimeValue t" by (cases nd) simp_all
        note ndt = nd[unfolded t]
        from process_campaign_scheduled[OF due ndt None cr sch assms(2), of fmt] obtain mid where
          p: "process_campaign fmt e store c
            = (case db_save e of
                 Some err \<Rightarrow>
                   Some (store @ [(new_campaign fmt store c (TimeValue t))
                            \<lparr>mailchimpCampaignId := Some mid, status := scheduled\<rparr>],
                         [Outcome_failure (name c) err])
               | None \<Rightarrow>
                   Some (save (advanced c (clock e) t) store
                           @ [(new_campaign fmt store c (TimeValue t))
                                \<lparr>mailchimpCampaignId := Some mid, status := scheduled\<rparr>],
                         [Outcome_success (name c) (TimeValue t)]))"
          by (elim exE conjE)
        define n where "n = (new_campaign fmt store c (TimeValue t))
                      \<lparr>mailchimpCampaignId := Some mid, status := scheduled\<rparr>"
        have o: "schedule_ordered n" by (simp add: n_def schedule_ordered_new)
        show ?thesis
        proof (cases "db_save e")
          case (Some err)
          have d: "distinct (map cid (store @ [n]))"
            using assms(1) by (rule distinct_append_fresh) (simp add: n_def)
          have "?P (store @ [n]) [Outcome_failure (name c) err]"
            using due p d o assms(2) Some None unfolding n_def[symmetric]
            by (auto simp: all_accepted_def dispatch_fails_def cr sch)
          then show ?thesis by blast
        next
          case sv: None
          define a where "a = advanced c (clock e) t"
          have ca: "cid a = cid c" by (simp add: a_def advanced_def)
          have acc: "all_accepted e" using None cr sch sv by (simp add: all_accepted_def)
          have nf: "\<not> dispatch_fails e" using cr sch by (simp add: dispatch_fails_def)
          have p': "process_campaign fmt e store c
            = Some (save a store @ [n], [Outcome_success (name c) (TimeValue t)])"
            using p sv by (simp add: n_def a_def)
          have "distinct (map cid (save a store))" using assms(1) by (simp add: save_ids)
          moreover have "cid n \<notin> cid ` set (save a store)"
          proof -
            have "cid ` set (save a store) = set (map cid (save a store))" by simp
            also have "\<dots> = cid ` set store" by (simp add: save_ids)
            finally show ?thesis using fresh_id_new[of store] by (simp add: n_def)
          qed
          ultimately have d: "distinct (map cid (save a store @ [n]))" by simp
          have fr: "\<forall>d\<in>set store. cid d \<noteq> cid c \<longrightarrow> d \<in> set (save a store @ [n])"
            using save_other[of _ store a] ca by simp
          have am: "a \<in> set (save a store @ [n])"
            using save_mem[OF assms(2) ca] by simp
          have lt: "clock e < t" if "valid_rule (recurring c)"
            using valid[OF that] t by simp
          have oa: "schedule_ordered a" if "valid_rule (recurring c)"
            unfolding a_def using lt[OF that] by (rule schedule_ordered_advanced)
          have ord: "valid_rule (recurring c) \<and> (\<forall>d\<in>set store. schedule_ordered d)
              \<longrightarrow> (\<forall>d\<in>set (save a store @ [n]). schedule_ordered d)"
            using save_set[of _ a store] o oa by auto
          have "?P (save a store @ [n]) [Outcome_success (name c) (TimeValue t)]"
            using due p' d fr am ord acc nf ndt lt by (simp add: a_def)
          then show ?thesis by blast
        qed
      qed
    qed
  qed
qed

section \<open>The loop over the campaigns\<close>

lemma iteration_post_mono:
  assumes "iteration_post e c store' rs" "set rs \<subseteq> set rs'"
  shows "iteration_post e c store' rs'"
  using assms unfolding iteration_post_def by blast

lemma process_loop_post:
  assumes "\<forall>j. clocks_in_range (env j)"
  shows "distinct (map cid store) \<Longrightarrow> set cs \<subseteq> set store \<Longrightarrow> distinct (map cid cs) \<Longrightarrow>
    \<forall>c\<in>set cs. valid_dayOfWeek (recurring c) \<Longrightarrow>
    \<exists>store' rs. process_loop fmt env i cs store rs0 = Some (store', rs0 @ rs) \<and>
      distinct (map cid store') \<and>
      (\<forall>d\<in>set store. cid d \<notin> cid ` set cs \<longrightarrow> d \<in> set store') \<and>
      map outcome_campaign rs = map name (due_campaigns env i cs) \<and>
      (\<forall>(j, c)\<in>set (enumerate i cs). iteration_post (env j) c store' rs) \<and>
      ((\<forall>j. \<not> all_accepted (env j)) \<longrightarrow> (\<forall>x\<in>set rs. is_failure x)) \<and>
      ((\<forall>c\<in>set cs. valid_rule (recurring c)) \<and> (\<forall>d\<in>set store. schedule_ordered d)
         \<longrightarrow> (\<forall>d\<in>set store'. schedule_ordered d))"
proof (induction cs arbitrary: i store rs0)
  case Nil
  then show ?case by simp
next
  case (Cons c cs)
  have cin: "c \<in> set store" and vc: "valid_dayOfWeek (recurring c)"
    and ck: "clocks_in_range (env i)"
    using Cons.prems assms by simp_all
  from process_campaign_step[OF Cons.prems(1) cin vc ck, of fmt] obtain store1 pushed where
    p: "process_campaign fmt (env i) store c = Some (store1, pushed)" and
    d1: "distinct (map cid store1)" and
    fr1: "\<forall>d\<in>set store. cid d \<noteq> cid c \<longrightarrow> d \<in> set store1" and
    oc1: "map outcome_campaign pushed = (if is_due (recurring c) (clock (env i)) then [name c] else [])" and
    keep1: "\<not> (is_due (recurring c) (clock (env i)) \<and> all_accepted (env i))
        \<longrightarrow> c \<in> set store1 \<and> (\<forall>x\<in>set pushed. is_failure x)" and
    fail1: "is_due (recurring c) (clock (env i)) \<and> dispatch_fails (env i)
        \<longrightarrow> pushed = [Outcome_failure (name c) (dispatch_error (env i))]" and
    adv1: "is_due (recurring c) (clock (env i)) \<and> all_accepted (env i) \<and> valid_rule (recurring c)
        \<longrightarrow> (\<exists>t. next_date (recurring c) (clock_next (env i)) = Some (TimeValue t) \<and> clock (env i) < t \<and>
              pushed = [Outcome_success (name c) (TimeValue t)] \<and>
              advanced c (clock (env i)) t \<in> set store1)" and
    ord1: "valid_rule (recurring c) \<and> (\<forall>d\<in>set store. schedule_ordered d)
        \<longrightarrow> (\<forall>d\<in>set store1. schedule_ordered d)"
    by (elim exE conjE)
  have cnot: "cid c \<notin> cid ` set cs" using Cons.prems(3) by simp
  have sub: "set cs \<subseteq> set store1"
  proof
    fix d assume d: "d \<in> set cs"
    then have "d \<in> set store" using Cons.prems(2) by auto
    moreover have "cid d \<noteq> cid c" using d cnot by (metis imageI)
    ultimately show "d \<in> set store1" using fr1 by simp
  qed
  have dcs: "distinct (map cid cs)" using Cons.prems(3) by simp
  have vcs: "\<forall>c\<in>set cs. valid_dayOfWeek (recurring c)" using Cons.prems(4) by simp
  from Cons.IH[OF d1 sub dcs vcs, of "Suc i" "rs0 @ pushed"] obtain store' rs where
    l: "process_loop fmt env (Suc i) cs store1 (rs0 @ pushed) = Some (store', (rs0 @ pushed) @ rs)" and
    d': "distinct (map cid store')" and
    fr': "\<forall>d\<in>set store1. cid d \<notin> cid ` set cs \<longrightarrow> d \<in> set store'" and
    oc': "map outcome_campaign rs = map name (due_campaigns env (Suc i) cs)" and
    it': "\<forall>(j, c)\<in>set (enumerate (Suc i) cs). iteration_post (env j) c store' rs" and
    fl': "(\<forall>j. \<not> all_accepted (env j)) \<longrightarrow> (\<forall>x\<in>set rs. is_failure x)" and
    ord': "(\<forall>c\<in>set cs. valid_rule (recurring c)) \<and> (\<forall>d\<in>set store1. schedule_ordered d)
        \<longrightarrow> (\<forall>d\<in>set store'. schedule_ordered d)"
    by (elim exE conjE)
  have r1: "process_loop fmt env i (c # cs) store rs0 = Some (store', rs0 @ (pushed @ rs))"
    using p l by simp
  have r3: "\<forall>d\<in>set store. cid d \<notin> cid ` set (c # cs) \<longrightarrow> d \<in> set store'"
    using fr1 fr' by simp
  have r4: "map outcome_campaign (pushed @ rs) = map name (due_campaigns env i (c # cs))"
    using oc1 oc' by simp
  have here: "iteration_post (env i) c store' (pushed @ rs)"
  proof -
    have a: "c \<in> set store'" if "\<not> (is_due (recurring c) (clock (env i)) \<and> all_accepted (env i))"
      using that keep1 fr' cnot by simp
    have b: "Outcome_failure (name c) (dispatch_error (env i)) \<in> set (pushed @ rs)"
      if "is_due (recurring c) (clock (env i)) \<and> dispatch_fails (env i)"
      using that fail1 by simp
    have e: "\<exists>t. next_date (recurring c) (clock_next (env i)) = Some (TimeValue t) \<and> clock (env i) < t \<and>
               Outcome_success (name c) (TimeValue t) \<in> set (pushed @ rs) \<and>
               advanced c (clock (env i)) t \<in> set store'"
      if "is_due (recurring c) (clock (env i)) \<and> all_accepted (env i) \<and> valid_rule (recurring c)"
    proof -
      from adv1 that obtain t where
        t: "next_date (recurring c) (clock_next (env i)) = Some (TimeValue t)" "clock (env i) < t"
          "pushed = [Outcome_success (name c) (TimeValue t)]"
          "advanced c (clock (env i)) t \<in> set store1"
        by blast
      have "cid (advanced c (clock (env i)) t) \<notin> cid ` set cs"
        using cnot by (simp add: advanced_def)
      then have "advanced c (clock (env i)) t \<in> set store'" using t(4) fr' by blast
      then show ?thesis using t by (intro exI[of _ t]) simp
    qed
    show ?thesis unfolding iteration_post_def using a b e by blast
  qed
  have later: "\<forall>(j, c)\<in>set (enumerate (Suc i) cs). iteration_post (env j) c store' (pushed @ rs)"
  proof -
    have "iteration_post e d store' (pushed @ rs)" if "iteration_post e d store' rs" for e d
      using that by (rule iteration_post_mono) simp
    then show ?thesis using it' by blast
  qed
  have r5: "\<forall>(j, c)\<in>set (enumerate i (c # cs)). iteration_post (env j) c store' (pushed @ rs)"
    using here later by simp
  have r6: "(\<forall>j. \<not> all_accepted (env j)) \<longrightarrow> (\<forall>x\<in>set (pushed @ rs). is_failure x)"
    using keep1 fl' by auto
  have r7: "(\<forall>c\<in>set (c # cs). valid_rule (recurring c)) \<and> (\<forall>d\<in>set store. schedule_ordered d)
      \<longrightarrow> (\<forall>d\<in>set store'. schedule_ordered d)"
    using ord1 ord' by simp
  show ?case
    by (intro exI[of _ store'] exI[of _ "pushed @ rs"] conjI r1 d' r3 r4 r5 r6 r7)
qed

section \<open>The pass\<close>

lemma find_recurring_subset: "set (find_recurring store) \<subseteq> set store"
  by (auto simp: find_recurring_def)

lemma find_recurring_distinct: "distinct (map cid store) \<Longrightarrow> distinct (map cid (find_recurring store))"
  unfolding find_recurring_def by (rule distinct_map_filter)

lemma find_recurring_iff:
  "c \<in> set (find_recurring store)
    \<longleftrightarrow> c \<in> set store \<and> enabled (recurring c) \<and> (status c = draft \<or> status c = sent)"
  by (auto simp: find_recurring_def)

lemma distinct_cid_eq:
  assumes "distinct (map cid store)" "a \<in> set store" "b \<in> set store" "cid a = cid b"
  shows "a = b"
  using assms by (meson distinct_map inj_on_def)

lemma enumerate_nth_mem:
  assumes "k < length cs"
  shows "(i + k, cs ! k) \<in> set (enumerate i cs)"
proof -
  have "enumerate i cs ! k = (i + k, cs ! k)" using assms by (rule nth_enumerate_eq)
  moreover have "enumerate i cs ! k \<in> set (enumerate i cs)" using assms by simp
  ultimately show ?thesis by simp
qed

lemma is_due_later: "is_due r now \<Longrightarrow> now \<le> now' \<Longrightarrow> is_due r now'"
  by (auto simp: is_due_def split: option.splits)

lemma due_campaigns_mem:
  "c \<in> set cs \<Longrightarrow> (\<forall>j. is_due (recurring c) (clock (env j))) \<Longrightarrow> c \<in> set (due_campaigns env i cs)"
  by (induction cs arbitrary: i) auto

lemma due_campaigns_subset: "set (due_campaigns env i cs) \<subseteq> set cs"
  by (induction cs arbitrary: i) auto

lemma pass_post:
  assumes "distinct (map cid store)"
    and "\<forall>c\<in>set (find_recurring store). valid_dayOfWeek (recurring c)"
    and "\<forall>j. clocks_in_range (env j)"
  shows "\<exists>store' rs.
      processRecurringCampaigns fmt True env store
        = Some (store', \<lparr>success = True, message = ''Recurring campaigns processed'',
                         results = Some rs\<rparr>) \<and>
      distinct (map cid store') \<and>
      (\<forall>d\<in>set store. d \<notin> set (find_recurring store) \<longrightarrow> d \<in> set store') \<and>
      map outcome_campaign rs = map name (due_campaigns env 0 (find_recurring store)) \<and>
      (\<forall>k<length (find_recurring store). iteration_post (env k) (find_recurring store ! k) store' rs) \<and>
      ((\<forall>j. \<not> all_accepted (env j)) \<longrightarrow> (\<forall>x\<in>set rs. is_failure x)) \<and>
      ((\<forall>c\<in>set (find_recurring store). valid_rule (recurring c)) \<and> (\<forall>d\<in>set store. schedule_ordered d)
         \<longrightarrow> (\<forall>d\<in>set store'. schedule_ordered d))"
proof -
  define cs where "cs = find_recurring store"
  have sub: "set cs \<subseteq> set store" unfolding cs_def by (rule find_recurring_subset)
  have dcs: "distinct (map cid cs)" unfolding cs_def using assms(1) by (rule find_recurring_distinct)
  have v: "\<forall>c\<in>set cs. valid_dayOfWeek (recurring c)" using assms(2) by (simp add: cs_def)
  from process_loop_post[OF assms(3) assms(1) sub dcs v, of fmt 0 "[]"] obtain store' rs where
    l: "process_loop fmt env 0 cs store [] = Some (store', [] @ rs)" and
    d': "distinct (map cid store')" and
    fr: "\<forall>d\<in>set store. cid d \<notin> cid ` set cs \<longrightarrow> d \<in> set store'" and
    oc: "map outcome_campaign rs = map name (due_campaigns env 0 cs)" and
    it: "\<forall>(j, c)\<in>set (enumerate 0 cs). iteration_post (env j) c store' rs" and
    fl: "(\<forall>j. \<not> all_accepted (env j)) \<longrightarrow> (\<forall>x\<in>set rs. is_failure x)" and
    ord: "(\<forall>c\<in>set cs. valid_rule (recurring c)) \<and> (\<forall>d\<in>set store. schedule_ordered d)
        \<longrightarrow> (\<forall>d\<in>set store'. schedule_ordered d)"
    by (elim exE conjE)
  have r1: "processRecurringCampaigns fmt True env store
        = Some (store', \<lparr>success = True, message = ''Recurring campaigns processed'',
                         results = Some rs\<rparr>)"
    using l by (simp add: processRecurringCampaigns_def cs_def)
  have r3: "\<forall>d\<in>set store. d \<notin> set cs \<longrightarrow> d \<in> set store'"
  proof (intro ballI impI)
    fix d assume d: "d \<in> set store" "d \<notin> set cs"
    have "cid d \<notin> cid ` set cs"
    proof
      assume "cid d \<in> cid ` set cs"
      then obtain c where c: "c \<in> set cs" "cid d = cid c" by auto
      then have "c \<in> set store" using sub by auto
      with assms(1) d(1) have "d = c" using c(2) by (rule distinct_cid_eq)
      with c(1) d(2) show False by simp
    qed
    with fr d(1) show "d \<in> set store'" by simp
  qed
  have r5: "\<forall>k<length cs. iteration_post (env k) (cs ! k) store' rs"
  proof (intro allI impI)
    fix k assume "k < length cs"
    then have "(0 + k, cs ! k) \<in> set (enumerate 0 cs)" by (rule enumerate_nth_mem)
    with it show "iteration_post (env k) (cs ! k) store' rs" by auto
  qed
  show ?thesis
    unfolding cs_def[symmetric]
    by (intro exI[of _ store'] exI[of _ rs] conjI r1 d' r3 oc r5 fl ord)
qed

subsection \<open>A day of the week that no date has\<close>

lemma seek_weekday_Some:
  assumes "seek_weekday dow d = Some r"
  shows "getDay r = Some dow"
proof (rule seek_weekday.raw_induct[where P = "\<lambda>dow d r. getDay r = Some dow", OF _ assms])
  fix f :: "int \<Rightarrow> jsdate \<Rightarrow> jsdate option" and w d r
  assume ih: "\<And>w d r. f w d = Some r \<Longrightarrow> getDay r = Some w"
    and eq: "(if getDay d \<noteq> Some w then f w (setDate d (num_add (getDate d) 1)) else Some d) = Some r"
  show "getDay r = Some w"
  proof (cases "getDay d \<noteq> Some w")
    case True
    then have "f w (setDate d (num_add (getDate d) 1)) = Some r" using eq by simp
    then show ?thesis by (rule ih)
  next
    case False
    then show ?thesis using eq by simp
  qed
qed

lemma seek_weekday_diverges:
  assumes "dow < 0 \<or> 6 < dow"
  shows "seek_weekday dow d = None"
proof (cases "seek_weekday dow d")
  case None
  then show ?thesis .
next
  case (Some r)
  then have g: "getDay r = Some dow" by (rule seek_weekday_Some)
  then obtain t where "r = TimeValue t" "WeekDay t = dow"
    by (cases r) (simp_all add: getDay_def)
  then show ?thesis using assms WeekDay_range[of t] by simp
qed

lemma next_date_diverges:
  assumes "dayOfWeek r = Some dow" "dow < 0 \<or> 6 < dow" "frequency r \<noteq> ''daily''"
  shows "next_date r now = None"
  using assms seek_weekday_diverges[OF assms(2)]
  by (simp add: next_date_def adjust_dayOfWeek_def)

lemma pass_never_returns:
  assumes "find_recurring store = c # cs" and "is_due (recurring c) (clock (env 0))"
    and "dayOfWeek (recurring c) = Some dow" "dow < 0 \<or> 6 < dow"
    and "frequency (recurring c) \<noteq> ''daily''"
  shows "processRecurringCampaigns fmt True env store = None"
proof -
  have "next_date (recurring c) (clock_next (env 0)) = None"
    using assms(3,4,5) by (rule next_date_diverges)
  then have "process_campaign fmt (env 0) store c = None"
    using assms(2) by (simp add: process_campaign_def)
  then show ?thesis by (simp add: processRecurringCampaigns_def assms(1))
qed

section \<open>The scenarios of the specification, at any time of the day\<close>

lemma clock_in_range_2024:
  assumes "0 \<le> ms" "ms < msPerDay" "19723 \<le> d" "d \<le> 20088"
  shows "clock_in_range (MakeDate d ms)"
proof -
  have "19723 * msPerDay \<le> d * msPerDay" "d * msPerDay \<le> 20088 * msPerDay"
    using assms(3,4) by (simp_all add: msPerDay_def)
  then show ?thesis using assms(1,2) by (simp add: clock_in_range_def MakeDate_def msPerDay_def)
qed

lemma scenario_monthly_31:
  assumes "0 \<le> ms" "ms < msPerDay"
  shows "next_date \<lparr>enabled = True, frequency = ''monthly'', dayOfWeek = None,
          dayOfMonth = Some 31, timeOfDay = Some ''09:00'', lastSent = None,
          nextScheduled = None\<rparr> (MakeDate (MakeDay 2024 0 15) ms)
        = Some (TimeValue (MakeDate (MakeDay 2024 1 29) (MakeTime 9 0 0 0)))"
proof -
  define r where "r = \<lparr>enabled = True, frequency = ''monthly'', dayOfWeek = None,
          dayOfMonth = Some 31, timeOfDay = Some ''09:00'', lastSent = None,
          nextScheduled = None\<rparr>"
  define now where "now = MakeDate (MakeDay 2024 0 15) ms"
  define t1 where "t1 = MakeDate (MakeDay 2024 1 15) ms"
  define u where "u = MakeDate (MakeDay 2024 1 29) ms"
  have days: "MakeDay 2024 0 15 = 19737" "MakeDay 2024 1 15 = 19768" "MakeDay 2024 1 29 = 19782"
    by (simp_all add: MakeDay_def DayFromYear_def monthStart_def leapDays_def DaysInYear_def)
  have dim: "DaysInMonth 2024 0 = 31" "DaysInMonth 2024 1 = 29"
    by (simp_all add: DaysInMonth_def monthStart_def leapDays_def DaysInYear_def)
  have rng: "clock_in_range now"
    unfolding now_def days using assms by (rule clock_in_range_2024) simp_all
  have dn: "Day now = MakeDay 2024 0 15" and tn: "TimeWithinDay now = ms"
    unfolding now_def using assms by (simp_all add: Day_MakeDate)
  have fn: "YearFromTime now = 2024" "MonthFromTime now = 0" "DateFromTime now = 15"
    using fields_of_MakeDay[of 0 15 2024 now] dn dim by simp_all
  have d1: "Day t1 = MakeDay 2024 1 15" and tt: "TimeWithinDay t1 = ms"
    unfolding t1_def using assms by (simp_all add: Day_MakeDate)
  have f1: "YearFromTime t1 = 2024" "MonthFromTime t1 = 1" "DateFromTime t1 = 15"
    using fields_of_MakeDay[of 1 15 2024 t1] d1 dim by simp_all
  have a1: "advance_interval (frequency r) (TimeValue now) = TimeValue t1"
    using advance_interval_months[OF rng, of "''monthly''"]
    by (simp add: r_def months_of_def fn tn t1_def)
  have a2: "adjust_dayOfWeek r (TimeValue t1) = Some (TimeValue t1)"
    by (simp add: adjust_dayOfWeek_def r_def)
  have "adjust_dayOfMonth r (TimeValue t1)
      = TimeValue (MakeDate (MakeDay (YearFromTime t1) (MonthFromTime t1)
                            (min 31 (DaysInMonth (YearFromTime t1) (MonthFromTime t1))))
                          (TimeWithinDay t1))"
    by (rule adjust_dayOfMonth_clamps[OF rng]) (simp_all add: dn d1 days r_def)
  then have a3: "adjust_dayOfMonth r (TimeValue t1) = TimeValue u"
    by (simp add: f1 dim tt u_def)
  have du: "Day u = 19782" unfolding u_def using assms by (simp add: Day_MakeDate days)
  have p: "Number ''09'' = Some 9" "Number ''00'' = Some 0"
    by (simp_all add: Number_def digit_def)
  have "setHours (TimeValue u) (Some 9) (Some 0) (Some 0) (Some 0)
      = TimeValue (MakeDate (MakeDay 2024 1 29) (MakeTime 9 0 0 0))"
    by (simp add: setHours_def du days TimeClip_def MakeDate_def MakeTime_def msPerDay_def msPerHour_def)
  then have a4: "apply_timeOfDay r (TimeValue u)
      = TimeValue (MakeDate (MakeDay 2024 1 29) (MakeTime 9 0 0 0))"
    by (simp add: apply_timeOfDay_def r_def p element_def)
  show ?thesis
    unfolding r_def[symmetric] now_def[symmetric] by (simp add: next_date_def a1 a2 a3 a4)
qed

lemma scenario_weekly_wednesday:
  assumes "0 \<le> ms" "ms < msPerDay"
  shows "WeekDay (MakeDate (MakeDay 2024 5 3) ms) = 1"
    and "advance_interval ''weekly'' (TimeValue (MakeDate (MakeDay 2024 5 3) ms))
        = TimeValue (MakeDate (MakeDay 2024 5 10) ms)"
    and "adjust_dayOfWeek \<lparr>enabled = True, frequency = ''weekly'', dayOfWeek = Some 3,
          dayOfMonth = None, timeOfDay = None, lastSent = None, nextScheduled = None\<rparr>
          (TimeValue (MakeDate (MakeDay 2024 5 10) ms))
        = Some (TimeValue (MakeDate (MakeDay 2024 5 12) ms))"
    and "WeekDay (MakeDate (MakeDay 2024 5 12) ms) = 3"
proof -
  define now where "now = MakeDate (MakeDay 2024 5 3) ms"
  define b where "b = MakeDate (MakeDay 2024 5 10) ms"
  have days: "MakeDay 2024 5 3 = 19877" "MakeDay 2024 5 10 = 19884" "MakeDay 2024 5 12 = 19886"
    by (simp_all add: MakeDay_def DayFromYear_def monthStart_def leapDays_def DaysInYear_def)
  have rng: "clock_in_range now"
    unfolding now_def days using assms by (rule clock_in_range_2024) simp_all
  have dn: "Day now = 19877" unfolding now_def using assms by (simp add: Day_MakeDate days)
  have db: "Day b = 19884" unfolding b_def using assms by (simp add: Day_MakeDate days)
  show w1: "WeekDay (MakeDate (MakeDay 2024 5 3) ms) = 1"
    using dn by (simp add: WeekDay_def now_def)
  have nb: "now + 7 * msPerDay = b" by (simp add: now_def b_def MakeDate_def days)
  have "advance_interval ''weekly'' (TimeValue now) = TimeValue (now + 7 * msPerDay)"
    by (rule advance_interval_days[OF rng]) simp
  then show "advance_interval ''weekly'' (TimeValue (MakeDate (MakeDay 2024 5 3) ms))
        = TimeValue (MakeDate (MakeDay 2024 5 10) ms)"
    by (simp add: nb) (simp add: now_def b_def)
  have wb: "WeekDay b = 1" using db by (simp add: WeekDay_def)
  have "seek_weekday 3 (TimeValue b) = Some (TimeValue (b + ((3 - WeekDay b) mod 7) * msPerDay))"
    by (rule seek_weekday_result[OF rng]) (simp_all add: dn db)
  moreover have "(3 - WeekDay b) mod 7 = 2" using wb by simp
  moreover have "b + 2 * msPerDay = MakeDate (MakeDay 2024 5 12) ms"
    by (simp add: b_def MakeDate_def days)
  ultimately show "adjust_dayOfWeek \<lparr>enabled = True, frequency = ''weekly'', dayOfWeek = Some 3,
          dayOfMonth = None, timeOfDay = None, lastSent = None, nextScheduled = None\<rparr>
          (TimeValue (MakeDate (MakeDay 2024 5 10) ms))
        = Some (TimeValue (MakeDate (MakeDay 2024 5 12) ms))"
    by (simp add: adjust_dayOfWeek_def b_def)
  have "Day (MakeDate (MakeDay 2024 5 12) ms) = 19886" using assms by (simp add: Day_MakeDate days)
  then show "WeekDay (MakeDate (MakeDay 2024 5 12) ms) = 3" by (simp add: WeekDay_def)
qed

section \<open>The claims\<close>

text \<open>
  C1.  For every recurrence rule whose settings are valid (any frequency, a day of
  the week from 0 to 6, a day of the month from 1 to 31, a time of day \<^verbatim>\<open>HH:MM\<close>,
  each of the three possibly absent) and every reading \<open>now\<close> of the clock in the
  range of time values, the computation of the next date inside
  \<^verbatim>\<open>processRecurringCampaigns\<close> ends with a valid date that is strictly later than
  \<open>now\<close>.
\<close>

theorem next_date_after_now:
  assumes "valid_rule r" and "clock_in_range now"
  shows "\<exists>t. next_date r now = Some (TimeValue t) \<and> now < t"
  using assms by (rule next_date_later)

theorem next_date_after_now_witness:
  "valid_rule \<lparr>enabled = True, frequency = ''quarterly'', dayOfWeek = Some 5,
      dayOfMonth = Some 31, timeOfDay = Some ''00:00'', lastSent = None, nextScheduled = None\<rparr>
   \<and> clock_in_range 1706745599999
   \<and> (\<exists>t. next_date \<lparr>enabled = True, frequency = ''quarterly'', dayOfWeek = Some 5,
      dayOfMonth = Some 31, timeOfDay = Some ''00:00'', lastSent = None, nextScheduled = None\<rparr>
      1706745599999 = Some (TimeValue t) \<and> 1706745599999 < t)"
proof -
  have v: "valid_rule \<lparr>enabled = True, frequency = ''quarterly'', dayOfWeek = Some 5,
      dayOfMonth = Some 31, timeOfDay = Some ''00:00'', lastSent = None, nextScheduled = None\<rparr>"
    by (simp add: valid_rule_def valid_dayOfWeek_def valid_timeOfDay_def digit_def)
  have c: "clock_in_range 1706745599999"
    by (simp add: clock_in_range_def msPerDay_def)
  show ?thesis using v c next_date_after_now[OF v c] by simp
qed

text \<open>
  C2.  The claim: the base interval moves \<open>now\<close> by one day (daily), 7 days (weekly),
  14 days (biweekly), one month (monthly), three months (quarterly), and from
  every date, the days 29 to 31 included, the monthly step ends in the month that
  follows.  The code at 2024-01-31: \<^verbatim>\<open>setMonth(getMonth() + 1)\<close> keeps the day 31,
  which February does not have, and ends on 2024-03-02, in March (month 2), not in
  February (month 1); with \<^verbatim>\<open>dayOfMonth = 31\<close> the next date is then 2024-03-31, and
  no date in February is produced at all.
\<close>

theorem monthly_step_skips_February:
  "YearFromTime (MakeDate (MakeDay 2024 0 31) 0) = 2024
   \<and> MonthFromTime (MakeDate (MakeDay 2024 0 31) 0) = 0
   \<and> DateFromTime (MakeDate (MakeDay 2024 0 31) 0) = 31
   \<and> advance_interval ''monthly'' (TimeValue (MakeDate (MakeDay 2024 0 31) 0))
       = TimeValue (MakeDate (MakeDay 2024 2 2) 0)
   \<and> getMonth (advance_interval ''monthly'' (TimeValue (MakeDate (MakeDay 2024 0 31) 0))) = Some 2
   \<and> getDate (advance_interval ''monthly'' (TimeValue (MakeDate (MakeDay 2024 0 31) 0))) = Some 2
   \<and> next_date \<lparr>enabled = True, frequency = ''monthly'', dayOfWeek = None,
          dayOfMonth = Some 31, timeOfDay = Some ''09:00'', lastSent = None,
          nextScheduled = None\<rparr> (MakeDate (MakeDay 2024 0 31) 0)
       = Some (TimeValue (MakeDate (MakeDay 2024 2 31) (MakeTime 9 0 0 0)))"
  by code_simp

text \<open>
  C3.  For every valid rule with \<^verbatim>\<open>dayOfMonth\<close> set and frequency monthly or
  quarterly, the computation sets the day of the working date \<open>w\<close> (the date after
  the base interval and the search for the day of the week) to the minimum of
  \<^verbatim>\<open>dayOfMonth\<close> and the length of the month of \<open>w\<close>, in the year and month of \<open>w\<close>,
  and the time of day does not move it.  A day 31 becomes 30 in a month of 30
  days, 28 in February of a common year and 29 in February of a leap year; the
  rule monthly, 31, \<^verbatim>\<open>09:00\<close> at any time of 2024-01-15 yields 2024-02-29 at 09:00.
\<close>

theorem dayOfMonth_clamped:
  assumes "valid_rule r" and "clock_in_range now"
    and "dayOfMonth r = Some dm"
    and "frequency r = ''monthly'' \<or> frequency r = ''quarterly''"
  shows "(\<exists>w u t.
      adjust_dayOfWeek r (advance_interval (frequency r) (TimeValue now)) = Some (TimeValue w) \<and>
      adjust_dayOfMonth r (TimeValue w) = TimeValue u \<and>
      next_date r now = Some (TimeValue t) \<and>
      YearFromTime u = YearFromTime w \<and> MonthFromTime u = MonthFromTime w \<and>
      DateFromTime u = min dm (DaysInMonth (YearFromTime w) (MonthFromTime w)) \<and>
      YearFromTime t = YearFromTime u \<and> MonthFromTime t = MonthFromTime u \<and>
      DateFromTime t = DateFromTime u)
    \<and> (\<forall>y. min 31 (DaysInMonth y 3) = 30 \<and> min 31 (DaysInMonth y 5) = 30 \<and>
             min 31 (DaysInMonth y 8) = 30 \<and> min 31 (DaysInMonth y 10) = 30 \<and>
             min 31 (DaysInMonth y 1) = (if DaysInYear y = 366 then 29 else 28))
    \<and> (\<forall>ms. 0 \<le> ms \<and> ms < msPerDay \<longrightarrow>
          next_date \<lparr>enabled = True, frequency = ''monthly'', dayOfWeek = None,
              dayOfMonth = Some 31, timeOfDay = Some ''09:00'', lastSent = None,
              nextScheduled = None\<rparr> (MakeDate (MakeDay 2024 0 15) ms)
            = Some (TimeValue (MakeDate (MakeDay 2024 1 29) (MakeTime 9 0 0 0))))"
proof -
  from advance_interval_later[OF assms(2), of "frequency r"] obtain t1 where
    a1: "advance_interval (frequency r) (TimeValue now) = TimeValue t1" and
    b1: "Day now + 1 \<le> Day t1" "Day t1 \<le> Day now + 93"
    by (elim exE conjE)
  have c1: "Day now \<le> Day t1" "Day t1 \<le> Day now + 200" using b1 by simp_all
  from adjust_dayOfWeek_later[OF assms(2) valid_rule_dayOfWeek[OF assms(1)] c1] obtain k where
    k: "0 \<le> k" "k \<le> 6" and
    a2: "adjust_dayOfWeek r (TimeValue t1) = Some (TimeValue (t1 + k * msPerDay))"
    by (elim exE conjE)
  define w where "w = t1 + k * msPerDay"
  have dw: "Day w = Day t1 + k" by (simp add: w_def Day_add_days)
  have bw: "Day now \<le> Day w" "Day w \<le> Day now + 200" using b1 k dw by simp_all
  have d1: "1 \<le> dm" using assms(1,3) by (simp add: valid_rule_def)
  from adjust_dayOfMonth_fields[OF assms(2) bw assms(3) d1 assms(4)] obtain u where
    a3: "adjust_dayOfMonth r (TimeValue w) = TimeValue u" and
    f3: "YearFromTime u = YearFromTime w" "MonthFromTime u = MonthFromTime w"
      "DateFromTime u = min dm (DaysInMonth (YearFromTime w) (MonthFromTime w))" and
    b3: "Day w - 30 \<le> Day u" "Day u \<le> Day w + 30"
    by (elim exE conjE)
  have c3: "Day now - 100 \<le> Day u" "Day u \<le> Day now + 300" using b3 bw by simp_all
  from apply_timeOfDay_later[OF assms(2,1) c3] obtain t where
    a4: "apply_timeOfDay r (TimeValue u) = TimeValue t" and d4: "Day t = Day u"
    by (elim exE conjE)
  have n: "next_date r now = Some (TimeValue t)"
    by (simp add: next_date_def a1 a2 w_def[symmetric] a3 a4)
  have f4: "YearFromTime t = YearFromTime u" "MonthFromTime t = MonthFromTime u"
    "DateFromTime t = DateFromTime u" by (rule fields_same_day[OF d4])+
  have a2': "adjust_dayOfWeek r (advance_interval (frequency r) (TimeValue now)) = Some (TimeValue w)"
    by (simp add: a1 a2 w_def)
  have g: "\<exists>w u t.
      adjust_dayOfWeek r (advance_interval (frequency r) (TimeValue now)) = Some (TimeValue w) \<and>
      adjust_dayOfMonth r (TimeValue w) = TimeValue u \<and>
      next_date r now = Some (TimeValue t) \<and>
      YearFromTime u = YearFromTime w \<and> MonthFromTime u = MonthFromTime w \<and>
      DateFromTime u = min dm (DaysInMonth (YearFromTime w) (MonthFromTime w)) \<and>
      YearFromTime t = YearFromTime u \<and> MonthFromTime t = MonthFromTime u \<and>
      DateFromTime t = DateFromTime u"
    by (intro exI[of _ w] exI[of _ u] exI[of _ t] conjI a2' a3 n f3 f4)
  have l: "min 31 (DaysInMonth y 3) = 30 \<and> min 31 (DaysInMonth y 5) = 30 \<and>
             min 31 (DaysInMonth y 8) = 30 \<and> min 31 (DaysInMonth y 10) = 30 \<and>
             min 31 (DaysInMonth y 1) = (if DaysInYear y = 366 then 29 else 28)" for y
    by (simp add: DaysInMonth_def monthStart_def leapDays_def)
  have s: "0 \<le> ms \<and> ms < msPerDay \<longrightarrow>
          next_date \<lparr>enabled = True, frequency = ''monthly'', dayOfWeek = None,
              dayOfMonth = Some 31, timeOfDay = Some ''09:00'', lastSent = None,
              nextScheduled = None\<rparr> (MakeDate (MakeDay 2024 0 15) ms)
            = Some (TimeValue (MakeDate (MakeDay 2024 1 29) (MakeTime 9 0 0 0)))" for ms
    using scenario_monthly_31[of ms] by simp
  show ?thesis by (intro conjI allI g l s)
qed

theorem dayOfMonth_clamped_witness:
  "valid_rule \<lparr>enabled = True, frequency = ''quarterly'', dayOfWeek = Some 0,
      dayOfMonth = Some 30, timeOfDay = Some ''18:30'', lastSent = None, nextScheduled = None\<rparr>
   \<and> clock_in_range 1700000000000
   \<and> (\<exists>w u t.
      adjust_dayOfWeek \<lparr>enabled = True, frequency = ''quarterly'', dayOfWeek = Some 0,
          dayOfMonth = Some 30, timeOfDay = Some ''18:30'', lastSent = None, nextScheduled = None\<rparr>
        (advance_interval ''quarterly'' (TimeValue 1700000000000)) = Some (TimeValue w) \<and>
      adjust_dayOfMonth \<lparr>enabled = True, frequency = ''quarterly'', dayOfWeek = Some 0,
          dayOfMonth = Some 30, timeOfDay = Some ''18:30'', lastSent = None, nextScheduled = None\<rparr>
        (TimeValue w) = TimeValue u \<and>
      next_date \<lparr>enabled = True, frequency = ''quarterly'', dayOfWeek = Some 0,
          dayOfMonth = Some 30, timeOfDay = Some ''18:30'', lastSent = None, nextScheduled = None\<rparr>
        1700000000000 = Some (TimeValue t) \<and>
      YearFromTime u = YearFromTime w \<and> MonthFromTime u = MonthFromTime w \<and>
      DateFromTime u = min 30 (DaysInMonth (YearFromTime w) (MonthFromTime w)) \<and>
      YearFromTime t = YearFromTime u \<and> MonthFromTime t = MonthFromTime u \<and>
      DateFromTime t = DateFromTime u)"
proof -
  have v: "valid_rule \<lparr>enabled = True, frequency = ''quarterly'', dayOfWeek = Some 0,
      dayOfMonth = Some 30, timeOfDay = Some ''18:30'', lastSent = None, nextScheduled = None\<rparr>"
    by (simp add: valid_rule_def valid_dayOfWeek_def valid_timeOfDay_def digit_def)
  have c: "clock_in_range 1700000000000"
    by (simp add: clock_in_range_def msPerDay_def)
  show ?thesis using v c dayOfMonth_clamped[OF v c, of 30] by simp
qed

text \<open>
  C4.  For every rule with \<^verbatim>\<open>dayOfWeek\<close> from 0 to 6 and a frequency other than daily,
  the search starts from the date \<open>b\<close> that the base interval gives and ends after
  \<open>k\<close> steps of one day, \<open>k\<close> less than 7, on the first date from \<open>b\<close> on whose day of
  the week is \<^verbatim>\<open>dayOfWeek\<close>; the result is not before \<open>b\<close>.  Weekly with
  \<^verbatim>\<open>dayOfWeek = 3\<close> at any time of 2024-06-03, a Monday, has the base date
  2024-06-10 and ends on 2024-06-12, a Wednesday.
\<close>

theorem dayOfWeek_search:
  assumes "clock_in_range now" and "dayOfWeek r = Some dow" and "0 \<le> dow" and "dow \<le> 6"
    and "frequency r \<noteq> ''daily''"
  shows "(\<exists>b k. advance_interval (frequency r) (TimeValue now) = TimeValue b \<and>
        0 \<le> k \<and> k < 7 \<and>
        adjust_dayOfWeek r (TimeValue b) = Some (TimeValue (b + k * msPerDay)) \<and>
        ((\<lambda>d. setDate d (num_add (getDate d) 1)) ^^ nat k) (TimeValue b)
          = TimeValue (b + k * msPerDay) \<and>
        WeekDay (b + k * msPerDay) = dow \<and>
        (\<forall>j. 0 \<le> j \<and> j < k \<longrightarrow> WeekDay (b + j * msPerDay) \<noteq> dow) \<and>
        b - msPerDay < b + k * msPerDay)
    \<and> (\<forall>ms. 0 \<le> ms \<and> ms < msPerDay \<longrightarrow>
          WeekDay (MakeDate (MakeDay 2024 5 3) ms) = 1 \<and>
          advance_interval ''weekly'' (TimeValue (MakeDate (MakeDay 2024 5 3) ms))
            = TimeValue (MakeDate (MakeDay 2024 5 10) ms) \<and>
          adjust_dayOfWeek \<lparr>enabled = True, frequency = ''weekly'', dayOfWeek = Some 3,
              dayOfMonth = None, timeOfDay = None, lastSent = None, nextScheduled = None\<rparr>
              (TimeValue (MakeDate (MakeDay 2024 5 10) ms))
            = Some (TimeValue (MakeDate (MakeDay 2024 5 12) ms)) \<and>
          WeekDay (MakeDate (MakeDay 2024 5 12) ms) = 3)"
proof -
  from advance_interval_later[OF assms(1), of "frequency r"] obtain b where
    a1: "advance_interval (frequency r) (TimeValue now) = TimeValue b" and
    b1: "Day now + 1 \<le> Day b" "Day b \<le> Day now + 93"
    by (elim exE conjE)
  have c1: "Day now \<le> Day b" "Day b \<le> Day now + 200" using b1 by simp_all
  define k where "k = (dow - WeekDay b) mod 7"
  have k: "0 \<le> k" "k < 7" by (simp_all add: k_def)
  have a2: "adjust_dayOfWeek r (TimeValue b) = Some (TimeValue (b + k * msPerDay))"
    using assms(2,5) seek_weekday_result[OF assms(1,3,4) c1]
    by (simp add: adjust_dayOfWeek_def k_def)
  have "Day b + int (nat k) \<le> Day now + 300" using k b1 by simp
  with c1(1) have "((\<lambda>d. setDate d (num_add (getDate d) 1)) ^^ nat k) (TimeValue b)
      = TimeValue (b + int (nat k) * msPerDay)"
    by (rule day_steps[OF assms(1)])
  then have a3: "((\<lambda>d. setDate d (num_add (getDate d) 1)) ^^ nat k) (TimeValue b)
      = TimeValue (b + k * msPerDay)" using k by simp
  have w: "WeekDay (b + k * msPerDay) = dow"
    unfolding k_def using assms(3,4) by (rule seek_weekday_lands)
  have f: "\<forall>j. 0 \<le> j \<and> j < k \<longrightarrow> WeekDay (b + j * msPerDay) \<noteq> dow"
    unfolding k_def using seek_weekday_first by blast
  have "0 \<le> k * msPerDay" using k by (simp add: msPerDay_def)
  then have nb: "b - msPerDay < b + k * msPerDay" by (simp add: msPerDay_def)
  have g: "\<exists>b k. advance_interval (frequency r) (TimeValue now) = TimeValue b \<and>
        0 \<le> k \<and> k < 7 \<and>
        adjust_dayOfWeek r (TimeValue b) = Some (TimeValue (b + k * msPerDay)) \<and>
        ((\<lambda>d. setDate d (num_add (getDate d) 1)) ^^ nat k) (TimeValue b)
          = TimeValue (b + k * msPerDay) \<and>
        WeekDay (b + k * msPerDay) = dow \<and>
        (\<forall>j. 0 \<le> j \<and> j < k \<longrightarrow> WeekDay (b + j * msPerDay) \<noteq> dow) \<and>
        b - msPerDay < b + k * msPerDay"
    by (intro exI[of _ b] exI[of _ k] conjI a1 k a2 a3 w f nb)
  have s: "0 \<le> ms \<and> ms < msPerDay \<longrightarrow>
          WeekDay (MakeDate (MakeDay 2024 5 3) ms) = 1 \<and>
          advance_interval ''weekly'' (TimeValue (MakeDate (MakeDay 2024 5 3) ms))
            = TimeValue (MakeDate (MakeDay 2024 5 10) ms) \<and>
          adjust_dayOfWeek \<lparr>enabled = True, frequency = ''weekly'', dayOfWeek = Some 3,
              dayOfMonth = None, timeOfDay = None, lastSent = None, nextScheduled = None\<rparr>
              (TimeValue (MakeDate (MakeDay 2024 5 10) ms))
            = Some (TimeValue (MakeDate (MakeDay 2024 5 12) ms)) \<and>
          WeekDay (MakeDate (MakeDay 2024 5 12) ms) = 3" for ms
    using scenario_weekly_wednesday[of ms] by simp
  show ?thesis using g s by blast
qed

theorem dayOfWeek_search_witness:
  "clock_in_range 1717372800000
   \<and> dayOfWeek \<lparr>enabled = True, frequency = ''biweekly'', dayOfWeek = Some 6,
        dayOfMonth = None, timeOfDay = None, lastSent = None, nextScheduled = None\<rparr> = Some 6
   \<and> (\<exists>b k. advance_interval ''biweekly'' (TimeValue 1717372800000) = TimeValue b \<and>
        0 \<le> k \<and> k < 7 \<and>
        adjust_dayOfWeek \<lparr>enabled = True, frequency = ''biweekly'', dayOfWeek = Some 6,
          dayOfMonth = None, timeOfDay = None, lastSent = None, nextScheduled = None\<rparr> (TimeValue b)
          = Some (TimeValue (b + k * msPerDay)) \<and>
        WeekDay (b + k * msPerDay) = 6 \<and>
        (\<forall>j. 0 \<le> j \<and> j < k \<longrightarrow> WeekDay (b + j * msPerDay) \<noteq> 6))"
proof -
  have c: "clock_in_range 1717372800000"
    by (simp add: clock_in_range_def msPerDay_def)
  have d: "dayOfWeek \<lparr>enabled = True, frequency = ''biweekly'', dayOfWeek = Some 6,
        dayOfMonth = None, timeOfDay = None, lastSent = None, nextScheduled = None\<rparr> = Some 6"
    by simp
  have f: "frequency \<lparr>enabled = True, frequency = ''biweekly'', dayOfWeek = Some 6,
        dayOfMonth = None, timeOfDay = None, lastSent = None, nextScheduled = None\<rparr> \<noteq> ''daily''"
    by simp
  show ?thesis using c d dayOfWeek_search[OF c d _ _ f] by simp blast
qed

text \<open>
  C5.  The claim: a rule whose frequency is none of the five values gives the same
  next date as the same rule with the frequency monthly.  The code at the
  frequency \<^verbatim>\<open>yearly\<close> with \<^verbatim>\<open>dayOfMonth = 15\<close>, at 2024-01-10 12:00: the \<^verbatim>\<open>default\<close>
  branch of the \<^verbatim>\<open>switch\<close> moves the date by one month as for monthly, but the
  guard of line 840 admits monthly and quarterly only, so the day of the month is
  not applied: 2024-02-10 09:00 instead of 2024-02-15 09:00.
\<close>

theorem unrecognized_frequency_differs_from_monthly:
  "next_date \<lparr>enabled = True, frequency = ''yearly'', dayOfWeek = None,
          dayOfMonth = Some 15, timeOfDay = Some ''09:00'', lastSent = None,
          nextScheduled = None\<rparr> (MakeDate (MakeDay 2024 0 10) (MakeTime 12 0 0 0))
       = Some (TimeValue (MakeDate (MakeDay 2024 1 10) (MakeTime 9 0 0 0)))
   \<and> next_date \<lparr>enabled = True, frequency = ''monthly'', dayOfWeek = None,
          dayOfMonth = Some 15, timeOfDay = Some ''09:00'', lastSent = None,
          nextScheduled = None\<rparr> (MakeDate (MakeDay 2024 0 10) (MakeTime 12 0 0 0))
       = Some (TimeValue (MakeDate (MakeDay 2024 1 15) (MakeTime 9 0 0 0)))
   \<and> MakeDate (MakeDay 2024 1 10) (MakeTime 9 0 0 0) \<noteq> MakeDate (MakeDay 2024 1 15) (MakeTime 9 0 0 0)"
  by code_simp

text \<open>
  C6.  In every pass over a collection whose selected definitions have a valid day
  of the week, with the clock in range: when the create step or the schedule step
  of the dispatch fails for a due definition, the document of that definition is
  in the collection after the pass exactly as before (so \<^verbatim>\<open>lastSent\<close> and
  \<^verbatim>\<open>nextScheduled\<close> are unchanged), it is selected again by the next query and is due
  at every later reading of the clock, and a failure entry with its name and the
  message of the error is in the results; the pass returns, and its results hold
  one entry for every definition that was due at its iteration, in the order of
  the batch, whatever happened to the others.
\<close>

theorem dispatch_failure_isolated:
  assumes "distinct (map cid store)"
    and "\<forall>c\<in>set (find_recurring store). valid_dayOfWeek (recurring c)"
    and "\<forall>j. clocks_in_range (env j)"
  shows "\<exists>store' rs.
      processRecurringCampaigns fmt True env store
        = Some (store', \<lparr>success = True, message = ''Recurring campaigns processed'',
                         results = Some rs\<rparr>) \<and>
      map outcome_campaign rs = map name (due_campaigns env 0 (find_recurring store)) \<and>
      (\<forall>k<length (find_recurring store).
         is_due (recurring (find_recurring store ! k)) (clock (env k)) \<and> dispatch_fails (env k)
         \<longrightarrow> find_recurring store ! k \<in> set store' \<and>
             find_recurring store ! k \<in> set (find_recurring store') \<and>
             (\<forall>now'. clock (env k) \<le> now' \<longrightarrow> is_due (recurring (find_recurring store ! k)) now') \<and>
             Outcome_failure (name (find_recurring store ! k)) (dispatch_error (env k)) \<in> set rs)"
proof -
  from pass_post[OF assms, of fmt] obtain store' rs where
    r: "processRecurringCampaigns fmt True env store
        = Some (store', \<lparr>success = True, message = ''Recurring campaigns processed'',
                         results = Some rs\<rparr>)" and
    oc: "map outcome_campaign rs = map name (due_campaigns env 0 (find_recurring store))" and
    it: "\<forall>k<length (find_recurring store). iteration_post (env k) (find_recurring store ! k) store' rs"
    by (elim exE conjE)
  have f: "find_recurring store ! k \<in> set store' \<and>
             find_recurring store ! k \<in> set (find_recurring store') \<and>
             (\<forall>now'. clock (env k) \<le> now' \<longrightarrow> is_due (recurring (find_recurring store ! k)) now') \<and>
             Outcome_failure (name (find_recurring store ! k)) (dispatch_error (env k)) \<in> set rs"
    if k: "k < length (find_recurring store)"
      and df: "is_due (recurring (find_recurring store ! k)) (clock (env k)) \<and> dispatch_fails (env k)"
    for k
  proof -
    define c where "c = find_recurring store ! k"
    have p: "iteration_post (env k) c store' rs" using it k by (simp add: c_def)
    have na: "\<not> all_accepted (env k)" using df by (auto simp: dispatch_fails_def all_accepted_def)
    have m: "c \<in> set store'" using p na by (simp add: iteration_post_def)
    have "c \<in> set (find_recurring store)" using k by (simp add: c_def)
    then have "enabled (recurring c) \<and> (status c = draft \<or> status c = sent)"
      by (simp add: find_recurring_iff)
    then have s: "c \<in> set (find_recurring store')" using m by (simp add: find_recurring_iff)
    have l: "\<forall>now'. clock (env k) \<le> now' \<longrightarrow> is_due (recurring c) now'"
      using df is_due_later[of "recurring c" "clock (env k)"] by (simp add: c_def)
    have o: "Outcome_failure (name c) (dispatch_error (env k)) \<in> set rs"
      using p df by (simp add: iteration_post_def c_def)
    show ?thesis using m s l o by (simp add: c_def)
  qed
  then have g: "\<forall>k<length (find_recurring store).
         is_due (recurring (find_recurring store ! k)) (clock (env k)) \<and> dispatch_fails (env k)
         \<longrightarrow> find_recurring store ! k \<in> set store' \<and>
             find_recurring store ! k \<in> set (find_recurring store') \<and>
             (\<forall>now'. clock (env k) \<le> now' \<longrightarrow> is_due (recurring (find_recurring store ! k)) now') \<and>
             Outcome_failure (name (find_recurring store ! k)) (dispatch_error (env k)) \<in> set rs"
    by blast
  show ?thesis
    by (rule exI[of _ store'], rule exI[of _ rs]) (intro conjI r oc g)
qed

lemma example_selected: "find_recurring [example_definition] = [example_definition]"
  by (simp add: find_recurring_def example_definition_def example_rule_def)

theorem dispatch_failure_isolated_witness:
  "distinct (map cid [example_definition])
   \<and> valid_dayOfWeek (recurring example_definition)
   \<and> clocks_in_range accepting
   \<and> is_due (recurring example_definition) (clock (schedule_rejected 0))
   \<and> dispatch_fails (schedule_rejected 0)
   \<and> (\<exists>store' rs.
        processRecurringCampaigns date_label True schedule_rejected [example_definition]
          = Some (store', \<lparr>success = True, message = ''Recurring campaigns processed'',
                           results = Some rs\<rparr>) \<and>
        example_definition \<in> set store' \<and>
        example_definition \<in> set (find_recurring store') \<and>
        Outcome_failure (name example_definition) (dispatch_error (schedule_rejected 0)) \<in> set rs)"
proof -
  have h1: "distinct (map cid [example_definition])" by simp
  have v: "valid_dayOfWeek (recurring example_definition)"
    by (simp add: valid_dayOfWeek_def example_definition_def example_rule_def)
  have h2: "\<forall>c\<in>set (find_recurring [example_definition]). valid_dayOfWeek (recurring c)"
    using v by (simp add: example_selected)
  have ck: "clocks_in_range accepting"
    by (simp add: accepting_def clocks_in_range_def clock_in_range_def msPerDay_def)
  have h3: "\<forall>j. clocks_in_range (schedule_rejected j)"
    using ck by (simp add: schedule_rejected_def clocks_in_range_def)
  have due: "is_due (recurring example_definition) (clock (schedule_rejected 0))"
    by (simp add: is_due_def example_definition_def example_rule_def)
  have df: "dispatch_fails (schedule_rejected 0)"
    by (simp add: dispatch_fails_def schedule_rejected_def accepting_def)
  from dispatch_failure_isolated[OF h1 h2 h3, of date_label] obtain store' rs where
    r: "processRecurringCampaigns date_label True schedule_rejected [example_definition]
          = Some (store', \<lparr>success = True, message = ''Recurring campaigns processed'',
                           results = Some rs\<rparr>)" and
    k: "\<forall>k<length (find_recurring [example_definition]).
         is_due (recurring (find_recurring [example_definition] ! k)) (clock (schedule_rejected k))
           \<and> dispatch_fails (schedule_rejected k)
         \<longrightarrow> find_recurring [example_definition] ! k \<in> set store' \<and>
             find_recurring [example_definition] ! k \<in> set (find_recurring store') \<and>
             (\<forall>now'. clock (schedule_rejected k) \<le> now'
                \<longrightarrow> is_due (recurring (find_recurring [example_definition] ! k)) now') \<and>
             Outcome_failure (name (find_recurring [example_definition] ! k))
               (dispatch_error (schedule_rejected k)) \<in> set rs"
    by (elim exE conjE)
  have "example_definition \<in> set store' \<and> example_definition \<in> set (find_recurring store') \<and>
      Outcome_failure (name example_definition) (dispatch_error (schedule_rejected 0)) \<in> set rs"
    using k due df by (simp add: example_selected)
  then show ?thesis using h1 v ck due df r by blast
qed

text \<open>
  C7.  The claim: after a dispatch that fails at the create step or at the schedule
  step, the collection holds no new state from that firing, no new document of the
  instance and no instance with the status scheduled.  The code stores the document
  of the instance (line 853) before it dispatches and never removes it: when
  Mailchimp rejects the creation the collection has the new document with the
  status draft, and when Mailchimp rejects the scheduling it has the new document
  with the status scheduled and the id of the campaign at Mailchimp.
\<close>

theorem failed_dispatch_keeps_instance:
  "processRecurringCampaigns date_label True create_rejected [example_definition]
     = Some ([example_definition,
              \<lparr>cid = 2, name = ''Monthly news - (date)'', description = ''News of the month'',
               ctype = ''newsletter'', template = 7, segment = [],
               scheduledFor = Some (TimeValue 1709197200000),
               recurring = \<lparr>enabled = False, frequency = ''monthly'', dayOfWeek = None,
                            dayOfMonth = None, timeOfDay = Some ''09:00'', lastSent = None,
                            nextScheduled = None\<rparr>,
               status = draft, mailchimpCampaignId = None\<rparr>],
             \<lparr>success = True, message = ''Recurring campaigns processed'',
              results = Some [Outcome_failure ''Monthly news''
                ''Failed to create campaign in Mailchimp: Error creating campaign in Mailchimp'']\<rparr>)
   \<and> processRecurringCampaigns date_label True schedule_rejected [example_definition]
     = Some ([example_definition,
              \<lparr>cid = 2, name = ''Monthly news - (date)'', description = ''News of the month'',
               ctype = ''newsletter'', template = 7, segment = [],
               scheduledFor = Some (TimeValue 1709197200000),
               recurring = \<lparr>enabled = False, frequency = ''monthly'', dayOfWeek = None,
                            dayOfMonth = None, timeOfDay = Some ''09:00'', lastSent = None,
                            nextScheduled = None\<rparr>,
               status = scheduled, mailchimpCampaignId = Some ''mc-1''\<rparr>],
             \<lparr>success = True, message = ''Recurring campaigns processed'',
              results = Some [Outcome_failure ''Monthly news''
                ''Failed to schedule campaign in Mailchimp: Error scheduling campaign in Mailchimp'']\<rparr>)"
  by code_simp

text \<open>
  C7 as amended.  When the dispatch of a due definition fails at the create step or
  at the schedule step, the iteration changes no document that was in the
  collection, the definition included, and adds exactly one: the document of the
  instance, with the status draft when the create step failed, with the status
  scheduled and the id of the campaign at Mailchimp when the create step succeeded
  and the schedule step failed.
\<close>

theorem failed_dispatch_adds_only_instance:
  assumes "is_due (recurring c) (clock e)" and "next_date (recurring c) (clock_next e) = Some nd"
    and "dispatch_fails e"
  shows "status (new_campaign fmt store c nd) = draft
    \<and> scheduledFor (new_campaign fmt store c nd) = Some nd
    \<and> (create_fails e \<longrightarrow>
         process_campaign fmt e store c
           = Some (store @ [new_campaign fmt store c nd],
                   [Outcome_failure (name c) (dispatch_error e)]))
    \<and> (\<not> create_fails e \<longrightarrow>
         (\<exists>mid. mc_create e = Some mid \<and>
            process_campaign fmt e store c
              = Some (store @ [(new_campaign fmt store c nd)
                                 \<lparr>mailchimpCampaignId := Some mid, status := scheduled\<rparr>],
                      [Outcome_failure (name c) (dispatch_error e)])))"
proof -
  have db: "db_create e = None" using assms(3) by (simp add: dispatch_fails_def)
  have a: "process_campaign fmt e store c
           = Some (store @ [new_campaign fmt store c nd],
                   [Outcome_failure (name c) (dispatch_error e)])" if "create_fails e"
    using assms(1,2) db that by (rule process_campaign_create_fails)
  have b: "\<exists>mid. mc_create e = Some mid \<and>
            process_campaign fmt e store c
              = Some (store @ [(new_campaign fmt store c nd)
                                 \<lparr>mailchimpCampaignId := Some mid, status := scheduled\<rparr>],
                      [Outcome_failure (name c) (dispatch_error e)])" if "\<not> create_fails e"
  proof -
    have "\<not> mc_schedule e \<or> nd = InvalidDate" using assms(3) that by (simp add: dispatch_fails_def)
    with assms(1,2) db that show ?thesis by (rule process_campaign_schedule_fails)
  qed
  show ?thesis using a b by (simp add: new_campaign_def)
qed

theorem failed_dispatch_adds_only_instance_witness:
  "is_due example_rule (clock (schedule_rejected 0))
   \<and> next_date example_rule (clock_next (schedule_rejected 0)) = Some (TimeValue 1709197200000)
   \<and> dispatch_fails (schedule_rejected 0)
   \<and> \<not> create_fails (schedule_rejected 0)
   \<and> (\<exists>mid. mc_create (schedule_rejected 0) = Some mid \<and>
         process_campaign date_label (schedule_rejected 0) [example_definition] example_definition
           = Some ([example_definition] @
                     [(new_campaign date_label [example_definition] example_definition
                          (TimeValue 1709197200000))
                        \<lparr>mailchimpCampaignId := Some mid, status := scheduled\<rparr>],
                   [Outcome_failure (name example_definition)
                      (dispatch_error (schedule_rejected 0))]))"
proof -
  have r: "recurring example_definition = example_rule" by (simp add: example_definition_def)
  have due: "is_due (recurring example_definition) (clock (schedule_rejected 0))"
    by (simp add: is_due_def example_definition_def example_rule_def)
  have nd: "next_date (recurring example_definition) (clock_next (schedule_rejected 0))
      = Some (TimeValue 1709197200000)"
    by code_simp
  have df: "dispatch_fails (schedule_rejected 0)"
    by (simp add: dispatch_fails_def schedule_rejected_def accepting_def)
  have cf: "\<not> create_fails (schedule_rejected 0)"
    by (simp add: create_fails_def schedule_rejected_def accepting_def)
  show ?thesis
    using failed_dispatch_adds_only_instance[OF due nd df, of date_label "[example_definition]"]
      due nd df cf by (simp add: r)
qed

text \<open>
  C8.  The claim: every definition whose recurrence is enabled and whose
  \<^verbatim>\<open>nextScheduled\<close> is absent or not later than now is selected and processed,
  whatever its other fields.  The query of line 791 also asks for the status draft
  or sent: an enabled definition without \<^verbatim>\<open>nextScheduled\<close> whose status is scheduled
  is not selected, nothing is pushed for it and the collection stays as it was.
\<close>

theorem enabled_due_not_selected:
  "enabled (recurring (example_definition\<lparr>status := scheduled\<rparr>)) = True
   \<and> nextScheduled (recurring (example_definition\<lparr>status := scheduled\<rparr>)) = None
   \<and> is_due (recurring (example_definition\<lparr>status := scheduled\<rparr>)) (clock (all_accepting 0)) = True
   \<and> processRecurringCampaigns date_label True all_accepting
         [example_definition\<lparr>status := scheduled\<rparr>]
       = Some ([example_definition\<lparr>status := scheduled\<rparr>],
               \<lparr>success = True, message = ''Recurring campaigns processed'', results = Some []\<rparr>)"
  by code_simp

text \<open>
  C8 as amended.  The definitions that a pass selects are those whose recurrence
  is enabled and whose status is draft or sent; among them, those whose
  \<^verbatim>\<open>nextScheduled\<close> is absent or not later than the reading of the clock in their
  iteration are processed: the results hold one entry for each of them, in the
  order of the collection, so a selected definition that is due at every reading
  has an entry with its name.  A definition that is not enabled or has another
  status is left as it was.
\<close>

theorem due_definitions_selected:
  assumes "distinct (map cid store)"
    and "\<forall>c\<in>set (find_recurring store). valid_dayOfWeek (recurring c)"
    and "\<forall>j. clocks_in_range (env j)"
  shows "\<exists>store' rs.
      processRecurringCampaigns fmt True env store
        = Some (store', \<lparr>success = True, message = ''Recurring campaigns processed'',
                         results = Some rs\<rparr>) \<and>
      map outcome_campaign rs
        = map name (due_campaigns env 0
            (filter (\<lambda>c. enabled (recurring c) \<and> (status c = draft \<or> status c = sent)) store)) \<and>
      (\<forall>c\<in>set store.
         enabled (recurring c) \<and> (status c = draft \<or> status c = sent) \<and>
         (\<forall>j. is_due (recurring c) (clock (env j)))
         \<longrightarrow> name c \<in> set (map outcome_campaign rs)) \<and>
      (\<forall>c\<in>set store.
         \<not> (enabled (recurring c) \<and> (status c = draft \<or> status c = sent)) \<longrightarrow> c \<in> set store')"
proof -
  have fe: "find_recurring store
      = filter (\<lambda>c. enabled (recurring c) \<and> (status c = draft \<or> status c = sent)) store"
    by (simp add: find_recurring_def)
  from pass_post[OF assms, of fmt] obtain store' rs where
    r: "processRecurringCampaigns fmt True env store
        = Some (store', \<lparr>success = True, message = ''Recurring campaigns processed'',
                         results = Some rs\<rparr>)" and
    fr: "\<forall>d\<in>set store. d \<notin> set (find_recurring store) \<longrightarrow> d \<in> set store'" and
    oc: "map outcome_campaign rs = map name (due_campaigns env 0 (find_recurring store))"
    by (elim exE conjE)
  have a: "map outcome_campaign rs
        = map name (due_campaigns env 0
            (filter (\<lambda>c. enabled (recurring c) \<and> (status c = draft \<or> status c = sent)) store))"
    using oc by (simp add: fe)
  have b: "\<forall>c\<in>set store.
         enabled (recurring c) \<and> (status c = draft \<or> status c = sent) \<and>
         (\<forall>j. is_due (recurring c) (clock (env j)))
         \<longrightarrow> name c \<in> set (map outcome_campaign rs)"
  proof (intro ballI impI)
    fix c assume c: "c \<in> set store"
      and s: "enabled (recurring c) \<and> (status c = draft \<or> status c = sent) \<and>
         (\<forall>j. is_due (recurring c) (clock (env j)))"
    have "c \<in> set (find_recurring store)" using c s by (simp add: find_recurring_iff)
    then have "c \<in> set (due_campaigns env 0 (find_recurring store))"
      using s by (intro due_campaigns_mem) simp_all
    then show "name c \<in> set (map outcome_campaign rs)" unfolding oc by simp
  qed
  have e: "\<forall>c\<in>set store.
         \<not> (enabled (recurring c) \<and> (status c = draft \<or> status c = sent)) \<longrightarrow> c \<in> set store'"
    using fr by (simp add: find_recurring_iff)
  show ?thesis
    by (rule exI[of _ store'], rule exI[of _ rs]) (intro conjI r a b e)
qed

theorem due_definitions_selected_witness:
  "distinct (map cid [example_definition, example_definition\<lparr>cid := 2, status := cancelled\<rparr>])
   \<and> valid_dayOfWeek (recurring example_definition)
   \<and> clocks_in_range accepting
   \<and> enabled (recurring example_definition)
   \<and> status example_definition = draft
   \<and> is_due (recurring example_definition) (clock accepting)
   \<and> status (example_definition\<lparr>cid := 2, status := cancelled\<rparr>) = cancelled
   \<and> (\<exists>store' rs.
        processRecurringCampaigns date_label True all_accepting
            [example_definition, example_definition\<lparr>cid := 2, status := cancelled\<rparr>]
          = Some (store', \<lparr>success = True, message = ''Recurring campaigns processed'',
                           results = Some rs\<rparr>) \<and>
        name example_definition \<in> set (map outcome_campaign rs) \<and>
        example_definition\<lparr>cid := 2, status := cancelled\<rparr> \<in> set store')"
proof -
  define store where "store = [example_definition, example_definition\<lparr>cid := 2, status := cancelled\<rparr>]"
  have h1: "distinct (map cid store)" by (simp add: store_def example_definition_def)
  have fs: "find_recurring store = [example_definition]"
    by (simp add: store_def find_recurring_def example_definition_def example_rule_def)
  have v: "valid_dayOfWeek (recurring example_definition)"
    by (simp add: valid_dayOfWeek_def example_definition_def example_rule_def)
  have h2: "\<forall>c\<in>set (find_recurring store). valid_dayOfWeek (recurring c)"
    using v by (simp add: fs)
  have ck: "clocks_in_range accepting"
    by (simp add: accepting_def clocks_in_range_def clock_in_range_def msPerDay_def)
  have h3: "\<forall>j. clocks_in_range (all_accepting j)"
    using ck by (simp add: all_accepting_def)
  have en: "enabled (recurring example_definition)" "status example_definition = draft"
    by (simp_all add: example_definition_def example_rule_def)
  have due: "is_due (recurring example_definition) (clock accepting)"
    by (simp add: is_due_def example_definition_def example_rule_def)
  from due_definitions_selected[OF h1 h2 h3, of date_label] obtain store' rs where
    r: "processRecurringCampaigns date_label True all_accepting store
        = Some (store', \<lparr>success = True, message = ''Recurring campaigns processed'',
                         results = Some rs\<rparr>)" and
    b: "\<forall>c\<in>set store.
         enabled (recurring c) \<and> (status c = draft \<or> status c = sent) \<and>
         (\<forall>j. is_due (recurring c) (clock (all_accepting j)))
         \<longrightarrow> name c \<in> set (map outcome_campaign rs)" and
    e: "\<forall>c\<in>set store.
         \<not> (enabled (recurring c) \<and> (status c = draft \<or> status c = sent)) \<longrightarrow> c \<in> set store'"
    by (elim exE conjE)
  have "name example_definition \<in> set (map outcome_campaign rs)"
    using b en due by (simp add: store_def all_accepting_def)
  moreover have "example_definition\<lparr>cid := 2, status := cancelled\<rparr> \<in> set store'"
    using e by (simp add: store_def)
  ultimately show ?thesis using h1 v ck en due r unfolding store_def by simp
qed

text \<open>
  C9.  In every pass over a collection whose selected definitions have valid rules,
  with the clock in range: for a due definition whose calls are all accepted, the
  pass stores the definition with \<^verbatim>\<open>lastSent\<close> set to the reading \<open>now\<close> of the clock
  (line 803) and \<^verbatim>\<open>nextScheduled\<close> set to the next date computed from the reading of
  line 810, which is strictly later than \<open>now\<close>, and pushes a success entry with that
  date; and when in every document of the collection \<^verbatim>\<open>nextScheduled\<close> is later than
  \<^verbatim>\<open>lastSent\<close> before the pass, the same holds after it.
\<close>

theorem successful_firing_advances:
  assumes "distinct (map cid store)"
    and "\<forall>c\<in>set (find_recurring store). valid_rule (recurring c)"
    and "\<forall>j. clocks_in_range (env j)"
  shows "\<exists>store' rs.
      processRecurringCampaigns fmt True env store
        = Some (store', \<lparr>success = True, message = ''Recurring campaigns processed'',
                         results = Some rs\<rparr>) \<and>
      (\<forall>k<length (find_recurring store).
         is_due (recurring (find_recurring store ! k)) (clock (env k)) \<and> all_accepted (env k)
         \<longrightarrow> (\<exists>t. next_date (recurring (find_recurring store ! k)) (clock_next (env k))
                    = Some (TimeValue t) \<and>
                  clock (env k) < t \<and>
                  (find_recurring store ! k)
                     \<lparr>recurring := (recurring (find_recurring store ! k))
                        \<lparr>lastSent := Some (clock (env k)), nextScheduled := Some t\<rparr>\<rparr>
                    \<in> set store' \<and>
                  Outcome_success (name (find_recurring store ! k)) (TimeValue t) \<in> set rs)) \<and>
      ((\<forall>d\<in>set store. schedule_ordered d) \<longrightarrow> (\<forall>d\<in>set store'. schedule_ordered d))"
proof -
  have v: "\<forall>c\<in>set (find_recurring store). valid_dayOfWeek (recurring c)"
    using assms(2) valid_rule_dayOfWeek by blast
  from pass_post[OF assms(1) v assms(3), of fmt] obtain store' rs where
    r: "processRecurringCampaigns fmt True env store
        = Some (store', \<lparr>success = True, message = ''Recurring campaigns processed'',
                         results = Some rs\<rparr>)" and
    it: "\<forall>k<length (find_recurring store). iteration_post (env k) (find_recurring store ! k) store' rs" and
    ord: "(\<forall>c\<in>set (find_recurring store). valid_rule (recurring c)) \<and> (\<forall>d\<in>set store. schedule_ordered d)
         \<longrightarrow> (\<forall>d\<in>set store'. schedule_ordered d)"
    by (elim exE conjE)
  have a: "\<forall>k<length (find_recurring store).
         is_due (recurring (find_recurring store ! k)) (clock (env k)) \<and> all_accepted (env k)
         \<longrightarrow> (\<exists>t. next_date (recurring (find_recurring store ! k)) (clock_next (env k))
                    = Some (TimeValue t) \<and>
                  clock (env k) < t \<and>
                  (find_recurring store ! k)
                     \<lparr>recurring := (recurring (find_recurring store ! k))
                        \<lparr>lastSent := Some (clock (env k)), nextScheduled := Some t\<rparr>\<rparr>
                    \<in> set store' \<and>
                  Outcome_success (name (find_recurring store ! k)) (TimeValue t) \<in> set rs)"
  proof (intro allI impI)
    fix k assume k: "k < length (find_recurring store)"
      and s: "is_due (recurring (find_recurring store ! k)) (clock (env k)) \<and> all_accepted (env k)"
    define c where "c = find_recurring store ! k"
    have "c \<in> set (find_recurring store)" using k by (simp add: c_def)
    then have vc: "valid_rule (recurring c)" using assms(2) by simp
    have "iteration_post (env k) c store' rs" using it k by (simp add: c_def)
    then obtain t where "next_date (recurring c) (clock_next (env k)) = Some (TimeValue t)"
      "clock (env k) < t" "Outcome_success (name c) (TimeValue t) \<in> set rs"
      "advanced c (clock (env k)) t \<in> set store'"
      using s vc unfolding iteration_post_def c_def by blast
    then show "\<exists>t. next_date (recurring (find_recurring store ! k)) (clock_next (env k))
                    = Some (TimeValue t) \<and>
                  clock (env k) < t \<and>
                  (find_recurring store ! k)
                     \<lparr>recurring := (recurring (find_recurring store ! k))
                        \<lparr>lastSent := Some (clock (env k)), nextScheduled := Some t\<rparr>\<rparr>
                    \<in> set store' \<and>
                  Outcome_success (name (find_recurring store ! k)) (TimeValue t) \<in> set rs"
      unfolding c_def advanced_def by (intro exI[of _ t]) simp
  qed
  have b: "(\<forall>d\<in>set store. schedule_ordered d) \<longrightarrow> (\<forall>d\<in>set store'. schedule_ordered d)"
    using ord assms(2) by blast
  show ?thesis
    by (rule exI[of _ store'], rule exI[of _ rs]) (intro conjI r a b)
qed

theorem successful_firing_advances_witness:
  "distinct (map cid [example_definition])
   \<and> valid_rule (recurring example_definition)
   \<and> clocks_in_range accepting
   \<and> is_due (recurring example_definition) (clock accepting)
   \<and> all_accepted accepting
   \<and> schedule_ordered example_definition
   \<and> (\<exists>store' rs.
        processRecurringCampaigns date_label True all_accepting [example_definition]
          = Some (store', \<lparr>success = True, message = ''Recurring campaigns processed'',
                           results = Some rs\<rparr>) \<and>
        (\<exists>t. next_date (recurring example_definition) (clock_next accepting) = Some (TimeValue t) \<and>
             clock accepting < t \<and>
             example_definition
               \<lparr>recurring := (recurring example_definition)
                  \<lparr>lastSent := Some (clock accepting), nextScheduled := Some t\<rparr>\<rparr>
               \<in> set store' \<and>
             Outcome_success (name example_definition) (TimeValue t) \<in> set rs) \<and>
        (\<forall>d\<in>set store'. schedule_ordered d))"
proof -
  have h1: "distinct (map cid [example_definition])" by simp
  have v: "valid_rule (recurring example_definition)"
    by (simp add: valid_rule_def valid_dayOfWeek_def valid_timeOfDay_def digit_def
        example_definition_def example_rule_def)
  have h2: "\<forall>c\<in>set (find_recurring [example_definition]). valid_rule (recurring c)"
    using v by (simp add: example_selected)
  have ck: "clocks_in_range accepting"
    by (simp add: accepting_def clocks_in_range_def clock_in_range_def msPerDay_def)
  have h3: "\<forall>j. clocks_in_range (all_accepting j)"
    using ck by (simp add: all_accepting_def)
  have due: "is_due (recurring example_definition) (clock accepting)"
    by (simp add: is_due_def example_definition_def example_rule_def)
  have acc: "all_accepted accepting"
    by (simp add: all_accepted_def create_fails_def accepting_def)
  have so: "schedule_ordered example_definition"
    by (simp add: schedule_ordered_def example_definition_def example_rule_def)
  from successful_firing_advances[OF h1 h2 h3, of date_label] obtain store' rs where
    r: "processRecurringCampaigns date_label True all_accepting [example_definition]
          = Some (store', \<lparr>success = True, message = ''Recurring campaigns processed'',
                           results = Some rs\<rparr>)" and
    a: "\<forall>k<length (find_recurring [example_definition]).
         is_due (recurring (find_recurring [example_definition] ! k)) (clock (all_accepting k))
           \<and> all_accepted (all_accepting k)
         \<longrightarrow> (\<exists>t. next_date (recurring (find_recurring [example_definition] ! k))
                      (clock_next (all_accepting k)) = Some (TimeValue t) \<and>
                  clock (all_accepting k) < t \<and>
                  (find_recurring [example_definition] ! k)
                     \<lparr>recurring := (recurring (find_recurring [example_definition] ! k))
                        \<lparr>lastSent := Some (clock (all_accepting k)), nextScheduled := Some t\<rparr>\<rparr>
                    \<in> set store' \<and>
                  Outcome_success (name (find_recurring [example_definition] ! k)) (TimeValue t)
                    \<in> set rs)" and
    b: "(\<forall>d\<in>set [example_definition]. schedule_ordered d) \<longrightarrow> (\<forall>d\<in>set store'. schedule_ordered d)"
    by (elim exE conjE)
  have a0: "\<exists>t. next_date (recurring example_definition) (clock_next accepting) = Some (TimeValue t) \<and>
             clock accepting < t \<and>
             example_definition
               \<lparr>recurring := (recurring example_definition)
                  \<lparr>lastSent := Some (clock accepting), nextScheduled := Some t\<rparr>\<rparr>
               \<in> set store' \<and>
             Outcome_success (name example_definition) (TimeValue t) \<in> set rs"
    using a due acc by (simp add: example_selected all_accepting_def)
  have b0: "\<forall>d\<in>set store'. schedule_ordered d" using b so by simp
  show ?thesis using h1 v ck due acc so r a0 b0 by blast
qed

text \<open>
  C10.  Whenever the query of line 791 succeeds, in a collection whose selected
  definitions have a valid day of the week and with the clock in range, the pass
  returns the object with \<^verbatim>\<open>success: true\<close>, also when no iteration has all its
  calls accepted; the failures are entries of \<^verbatim>\<open>results\<close>, one for every definition
  that was due, all of them failures in that case.  Only the failure of the query
  gives \<^verbatim>\<open>success: false\<close>.
\<close>

theorem pass_reports_success:
  assumes "distinct (map cid store)"
    and "\<forall>c\<in>set (find_recurring store). valid_dayOfWeek (recurring c)"
    and "\<forall>j. clocks_in_range (env j)"
  shows "(\<exists>store' rs.
      processRecurringCampaigns fmt True env store
        = Some (store', \<lparr>success = True, message = ''Recurring campaigns processed'',
                         results = Some rs\<rparr>) \<and>
      length rs = length (due_campaigns env 0 (find_recurring store)) \<and>
      ((\<forall>j. \<not> all_accepted (env j)) \<longrightarrow> (\<forall>x\<in>set rs. is_failure x)))
    \<and> processRecurringCampaigns fmt False env store
        = Some (store, \<lparr>success = False, message = ''Error processing recurring campaigns'',
                        results = None\<rparr>)"
proof -
  from pass_post[OF assms, of fmt] obtain store' rs where
    r: "processRecurringCampaigns fmt True env store
        = Some (store', \<lparr>success = True, message = ''Recurring campaigns processed'',
                         results = Some rs\<rparr>)" and
    oc: "map outcome_campaign rs = map name (due_campaigns env 0 (find_recurring store))" and
    fl: "(\<forall>j. \<not> all_accepted (env j)) \<longrightarrow> (\<forall>x\<in>set rs. is_failure x)"
    by (elim exE conjE)
  have "length (map outcome_campaign rs) = length (map name (due_campaigns env 0 (find_recurring store)))"
    using oc by simp
  then have n: "length rs = length (due_campaigns env 0 (find_recurring store))" by simp
  have a: "\<exists>store' rs.
      processRecurringCampaigns fmt True env store
        = Some (store', \<lparr>success = True, message = ''Recurring campaigns processed'',
                         results = Some rs\<rparr>) \<and>
      length rs = length (due_campaigns env 0 (find_recurring store)) \<and>
      ((\<forall>j. \<not> all_accepted (env j)) \<longrightarrow> (\<forall>x\<in>set rs. is_failure x))"
    by (rule exI[of _ store'], rule exI[of _ rs]) (intro conjI r n fl)
  have b: "processRecurringCampaigns fmt False env store
        = Some (store, \<lparr>success = False, message = ''Error processing recurring campaigns'',
                        results = None\<rparr>)"
    by (simp add: processRecurringCampaigns_def)
  show ?thesis using a b by (rule conjI)
qed

theorem pass_reports_success_witness:
  "distinct (map cid [example_definition])
   \<and> valid_dayOfWeek (recurring example_definition)
   \<and> clocks_in_range accepting
   \<and> \<not> all_accepted (accepting\<lparr>mc_create := None\<rparr>)
   \<and> (\<exists>store' rs.
        processRecurringCampaigns date_label True create_rejected [example_definition]
          = Some (store', \<lparr>success = True, message = ''Recurring campaigns processed'',
                           results = Some rs\<rparr>) \<and>
        length rs = 1 \<and> (\<forall>x\<in>set rs. is_failure x))"
proof -
  have h1: "distinct (map cid [example_definition])" by simp
  have v: "valid_dayOfWeek (recurring example_definition)"
    by (simp add: valid_dayOfWeek_def example_definition_def example_rule_def)
  have h2: "\<forall>c\<in>set (find_recurring [example_definition]). valid_dayOfWeek (recurring c)"
    using v by (simp add: example_selected)
  have ck: "clocks_in_range accepting"
    by (simp add: accepting_def clocks_in_range_def clock_in_range_def msPerDay_def)
  have h3: "\<forall>j. clocks_in_range (create_rejected j)"
    using ck by (simp add: create_rejected_def clocks_in_range_def)
  have na: "\<not> all_accepted (accepting\<lparr>mc_create := None\<rparr>)"
    by (simp add: all_accepted_def create_fails_def)
  have all: "\<forall>j. \<not> all_accepted (create_rejected j)"
    using na by (simp add: create_rejected_def)
  have due: "is_due (recurring example_definition) (clock (create_rejected 0))"
    by (simp add: is_due_def example_definition_def example_rule_def)
  from pass_reports_success[OF h1 h2 h3, of date_label] obtain store' rs where
    r: "processRecurringCampaigns date_label True create_rejected [example_definition]
          = Some (store', \<lparr>success = True, message = ''Recurring campaigns processed'',
                           results = Some rs\<rparr>)" and
    n: "length rs = length (due_campaigns create_rejected 0 (find_recurring [example_definition]))" and
    f: "(\<forall>j. \<not> all_accepted (create_rejected j)) \<longrightarrow> (\<forall>x\<in>set rs. is_failure x)"
    by (elim exE conjE)
  have n1: "length rs = 1" using n due by (simp add: example_selected)
  have f1: "\<forall>x\<in>set rs. is_failure x" using f all by simp
  show ?thesis using h1 v ck na r n1 f1 by blast
qed

end
